theory Spec2Isabelle
  imports Main "HOL-Library.Multiset" "HOL-Library.Monad_Syntax"
begin

section \<open>Minimum spanning trees: Kruskal and Prim (mst.js)\<close>

text \<open>
  A shallow embedding of the algorithmic core of \<^verbatim>\<open>mst.js\<close>: the class
  \<^verbatim>\<open>DisjointSet\<close>, \<^verbatim>\<open>kruskalMST\<close>, the class \<^verbatim>\<open>MinHeap\<close>,
  \<^verbatim>\<open>buildAdj\<close> and \<^verbatim>\<open>primMST\<close>. The interactive part of the file
  (readline, \<^verbatim>\<open>main\<close>) is not modelled.

  Conventions of the model:
  \<^item> Vertex ids, array indices and weights are natural numbers: the command line
    layer only passes integers \<open>w \<ge> 0\<close>. JavaScript numbers are IEEE 754 doubles. The
    weights are compared (\<^verbatim>\<open><\<close>, \<^verbatim>\<open><=\<close>, the sign of \<^verbatim>\<open>a.w - b.w\<close>), which is
    exact on doubles, and added up in \<^verbatim>\<open>total += w\<close>, which rounds: \<^verbatim>\<open>total\<close> is a
    \<open>number\<close>, and \<open>js_add\<close> is the addition of doubles. (A weight that JavaScript
    can hold is a natural number that is a double; the functions are defined on all
    natural numbers.)
  \<^item> The objects \<^verbatim>\<open>{u, v, w}\<close> (edges, entries of the result) and
    \<^verbatim>\<open>{w, u, v}\<close> (heap items) have the same three fields and are one datatype;
    the objects \<^verbatim>\<open>{to, w}\<close> of the adjacency lists are another one.
  \<^item> The mutable arrays are lists that are passed along and returned. The arrays of the
    union-find structure, which is indexed with unchecked vertex ids, are modelled with
    JavaScript's reads and writes outside the array.
  \<^item> \<^verbatim>\<open>throw new Error("Graph is not connected. ...")\<close> is the error value
    \<open>NotConnected\<close>. Reading a property of \<^verbatim>\<open>undefined\<close> makes the JavaScript
    runtime throw a TypeError; that is the error value \<open>TypeError\<close>.
\<close>

datatype edge = Edge (eu: nat) (ev: nat) (ew: nat)

datatype arc = Arc (to: nat) (aw: nat)

datatype error = NotConnected | TypeError

subsection \<open>JavaScript numbers\<close>

text \<open>
  The value of \<^verbatim>\<open>total\<close> is a double that holds a non-negative integer, or
  \<^verbatim>\<open>Infinity\<close>. A double has a significand of 53 bits, so an integer of at most 53
  binary digits is a double. \<open>round_double x\<close> is the double nearest to the integer
  \<open>x\<close> (round to nearest, ties to even): of an \<open>x\<close> with more digits the lowest
  \<open>e\<close> digits are dropped, and the 53 that remain are rounded up when the dropped
  part is more than half a unit, or is half a unit and the remaining part is odd. The
  result is \<^verbatim>\<open>Infinity\<close> when it reaches \<open>2^1024\<close>. \<open>bit_length x\<close> is the number
  of binary digits of \<open>x\<close>.
\<close>

datatype number = Finite nat | Infinity

fun bit_length :: "nat \<Rightarrow> nat" where
  "bit_length x = (if x = 0 then 0 else Suc (bit_length (x div 2)))"

declare bit_length.simps [simp del]

definition round_double :: "nat \<Rightarrow> number" where
  "round_double x =
     (if bit_length x \<le> 53 then Finite x
      else
        (let e = bit_length x - 53;
             q = x div 2 ^ e;
             r = x mod 2 ^ e;
             q' = (if 2 ^ e < 2 * r \<or> (2 * r = 2 ^ e \<and> odd q) then q + 1 else q)
         in if 2 ^ 1024 \<le> q' * 2 ^ e then Infinity else Finite (q' * 2 ^ e)))"

text \<open>\<^verbatim>\<open>total + w\<close> for a weight \<open>w\<close>: the sum of the two integers, rounded.\<close>

fun js_add :: "number \<Rightarrow> nat \<Rightarrow> number" where
  "js_add (Finite t) w = round_double (t + w)"
| "js_add Infinity w = Infinity"

record mst_result =
  mst :: "edge list"
  total :: number

subsection \<open>JavaScript values and arrays\<close>

text \<open>
  The union-find structure indexes its arrays with vertex ids that it does not check. In
  JavaScript an array read at an index it does not have gives \<^verbatim>\<open>undefined\<close>, an
  assignment there extends the array (the cells in between are holes that read as
  \<^verbatim>\<open>undefined\<close>), and \<^verbatim>\<open>undefined\<close> itself is accepted as a property name
  (\<^verbatim>\<open>a[undefined]\<close> is the property \<^verbatim>\<open>"undefined"\<close> of the array object). So a
  value of the structure is a number or \<^verbatim>\<open>undefined\<close>, and an array is its list of
  cells together with the value of its property \<^verbatim>\<open>"undefined"\<close>.
\<close>

datatype jsval = Num nat | Undefined

record js_array =
  cells :: "jsval list"
  undefined_prop :: jsval

text \<open>\<^verbatim>\<open>a[k]\<close> and \<^verbatim>\<open>a[k] = v\<close>.\<close>

fun aget :: "js_array \<Rightarrow> jsval \<Rightarrow> jsval" where
  "aget a (Num i) = (if i < length (cells a) then cells a ! i else Undefined)"
| "aget a Undefined = undefined_prop a"

fun aput :: "js_array \<Rightarrow> jsval \<Rightarrow> jsval \<Rightarrow> js_array" where
  "aput a (Num i) v =
     (if i < length (cells a) then a\<lparr>cells := (cells a)[i := v]\<rparr>
      else a\<lparr>cells := cells a @ replicate (i - length (cells a)) Undefined @ [v]\<rparr>)"
| "aput a Undefined v = a\<lparr>undefined_prop := v\<rparr>"

text \<open>
  The ranks are only compared with \<^verbatim>\<open><\<close> and \<^verbatim>\<open>>\<close> and incremented. A
  comparison with \<^verbatim>\<open>undefined\<close> is false, and \<^verbatim>\<open>undefined + 1\<close> is \<^verbatim>\<open>NaN\<close>,
  which behaves in the same way (every comparison with it is false, \<^verbatim>\<open>NaN + 1\<close> is
  \<^verbatim>\<open>NaN\<close>); in the array of ranks \<open>Undefined\<close> stands for both.
\<close>

fun js_less :: "jsval \<Rightarrow> jsval \<Rightarrow> bool" where
  "js_less (Num a) (Num b) = (a < b)"
| "js_less _ _ = False"

fun js_succ :: "jsval \<Rightarrow> jsval" where
  "js_succ (Num a) = Num (a + 1)"
| "js_succ Undefined = Undefined"

subsection \<open>Union-Find (class DisjointSet)\<close>

record disjoint_set =
  parent :: js_array
  rank :: js_array

text \<open>The constructor: \<^verbatim>\<open>parent = [0, ..., n-1]\<close>, \<^verbatim>\<open>rank = [0, ..., 0]\<close>.\<close>

definition DisjointSet :: "nat \<Rightarrow> disjoint_set" where
  "DisjointSet n =
     \<lparr>parent = \<lparr>cells = map Num [0..<n], undefined_prop = Undefined\<rparr>,
      rank = \<lparr>cells = replicate n (Num 0), undefined_prop = Undefined\<rparr>\<rparr>"

text \<open>
  \<^verbatim>\<open>find(x)\<close> only touches the array \<^verbatim>\<open>parent\<close>; it returns the array after
  path compression together with the root. The recursion of the source ends only if the
  parent pointers lead to a root, so the function is partial: \<open>None\<close> is "the call does
  not return".
\<close>

partial_function (option) find_ds :: "js_array \<Rightarrow> jsval \<Rightarrow> (js_array \<times> jsval) option" where
  "find_ds p x =
     (if aget p x \<noteq> x then
        do { (p', r) \<leftarrow> find_ds p (aget p x);
             Some (aput p' x r, aget (aput p' x r) x) }
      else Some (p, aget p x))"

declare find_ds.simps [code]

text \<open>\<^verbatim>\<open>union(a, b)\<close>: the new structure and the returned boolean.\<close>

definition union_ds :: "disjoint_set \<Rightarrow> jsval \<Rightarrow> jsval \<Rightarrow> (disjoint_set \<times> bool) option" where
  "union_ds ds a b =
     do { (p1, ra) \<leftarrow> find_ds (parent ds) a;
          (p2, rb) \<leftarrow> find_ds p1 b;
          if ra = rb then Some (ds\<lparr>parent := p2\<rparr>, False)
          else if js_less (aget (rank ds) ra) (aget (rank ds) rb)
            then Some (ds\<lparr>parent := aput p2 ra rb\<rparr>, True)
          else if js_less (aget (rank ds) rb) (aget (rank ds) ra)
            then Some (ds\<lparr>parent := aput p2 rb ra\<rparr>, True)
          else Some (ds\<lparr>parent := aput p2 rb ra,
                        rank := aput (rank ds) ra (js_succ (aget (rank ds) ra))\<rparr>, True) }"

subsection \<open>Kruskal (kruskalMST)\<close>

text \<open>
  The \<^verbatim>\<open>for ... of sorted\<close> loop with its \<^verbatim>\<open>break\<close>. The arguments are the
  edges still to visit, the union-find structure, \<^verbatim>\<open>mst\<close> and \<^verbatim>\<open>total\<close>.
  The test \<^verbatim>\<open>mst.length === n - 1\<close> is over the integers (for \<open>n = 0\<close> it never
  holds).
\<close>

fun kruskal_loop ::
  "nat \<Rightarrow> edge list \<Rightarrow> disjoint_set \<Rightarrow> edge list \<Rightarrow> number \<Rightarrow> (edge list \<times> number) option" where
  "kruskal_loop n [] ds m t = Some (m, t)"
| "kruskal_loop n (e # es) ds m t =
     (case union_ds ds (Num (eu e)) (Num (ev e)) of
        None \<Rightarrow> None
      | Some (ds', merged) \<Rightarrow>
          if merged then
            (if int (length (m @ [Edge (eu e) (ev e) (ew e)])) = int n - 1
             then Some (m @ [Edge (eu e) (ev e) (ew e)], js_add t (ew e))
             else kruskal_loop n es ds' (m @ [Edge (eu e) (ev e) (ew e)]) (js_add t (ew e)))
          else kruskal_loop n es ds' m t)"

text \<open>
  \<^verbatim>\<open>[...edges].sort((a, b) => a.w - b.w)\<close> sorts a copy by ascending weight;
  \<^verbatim>\<open>Array.prototype.sort\<close> is stable, as is \<open>sort_key\<close>.
\<close>

definition kruskalMST :: "nat \<Rightarrow> edge list \<Rightarrow> (error + mst_result) option" where
  "kruskalMST n edges =
     (case kruskal_loop n (sort_key ew edges) (DisjointSet n) [] (Finite 0) of
        None \<Rightarrow> None
      | Some (m, t) \<Rightarrow>
          if int (length m) \<noteq> int n - 1 then Some (Inl NotConnected)
          else Some (Inr \<lparr>mst = m, total = t\<rparr>))"

subsection \<open>Binary heap (class MinHeap)\<close>

text \<open>The heap is its array \<^verbatim>\<open>data\<close>. The destructuring swap of two cells:\<close>

definition swap :: "'a list \<Rightarrow> nat \<Rightarrow> nat \<Rightarrow> 'a list" where
  "swap xs i j = xs[i := xs ! j, j := xs ! i]"

text \<open>
  \<^verbatim>\<open>bubbleUp(i)\<close> is called by \<^verbatim>\<open>push\<close> only, with the index of the last
  cell; the indices it visits stay inside the array.
\<close>

function bubbleUp :: "edge list \<Rightarrow> nat \<Rightarrow> edge list" where
  "bubbleUp d i =
     (if i > 0 then
        (let p = (i - 1) div 2 in
         if ew (d ! p) \<le> ew (d ! i) then d
         else bubbleUp (swap d p i) p)
      else d)"
  by pat_completeness auto
termination
  by (relation "measure snd") auto

declare bubbleUp.simps [simp del]

text \<open>
  \<^verbatim>\<open>bubbleDown(i)\<close>: the tests \<^verbatim>\<open>l < n\<close> and \<^verbatim>\<open>r < n\<close> guard every read of
  a child.
\<close>

function bubbleDown :: "edge list \<Rightarrow> nat \<Rightarrow> edge list" where
  "bubbleDown d i =
     (let n = length d;
          l = 2 * i + 1;
          r = 2 * i + 2;
          s1 = (if l < n \<and> ew (d ! l) < ew (d ! i) then l else i);
          smallest = (if r < n \<and> ew (d ! r) < ew (d ! s1) then r else s1)
      in if smallest = i then d
         else bubbleDown (swap d i smallest) smallest)"
  by pat_completeness auto
termination
  by (relation "measure (\<lambda>(d, i). length d - i)") (auto simp: swap_def Let_def split: if_splits)

declare bubbleDown.simps [simp del]

definition push :: "edge list \<Rightarrow> edge \<Rightarrow> edge list" where
  "push d item = bubbleUp (d @ [item]) (length (d @ [item]) - 1)"

text \<open>\<^verbatim>\<open>pop()\<close>: the returned value (\<open>None\<close> is \<^verbatim>\<open>null\<close>) and the new array.\<close>

definition pop :: "edge list \<Rightarrow> edge option \<times> edge list" where
  "pop d =
     (if length d = 0 then (None, d)
      else
        (let top = d ! 0;
             end = last d;
             d' = butlast d
         in if length d' > 0 then (Some top, bubbleDown (d'[0 := end]) 0)
            else (Some top, d')))"

subsection \<open>Adjacency lists (buildAdj)\<close>

fun buildAdj_loop :: "edge list \<Rightarrow> arc list list \<Rightarrow> error + arc list list" where
  "buildAdj_loop [] adj = Inr adj"
| "buildAdj_loop (e # es) adj =
     (if eu e < length adj then
        (let adj1 = adj[eu e := adj ! eu e @ [Arc (ev e) (ew e)]] in
         if ev e < length adj1 then
           buildAdj_loop es (adj1[ev e := adj1 ! ev e @ [Arc (eu e) (ew e)]])
         else Inl TypeError)
      else Inl TypeError)"

definition buildAdj :: "nat \<Rightarrow> edge list \<Rightarrow> error + arc list list" where
  "buildAdj n edges = buildAdj_loop edges (replicate n [])"

subsection \<open>Prim (primMST)\<close>

text \<open>
  The array \<^verbatim>\<open>visited\<close> is only read for truthiness and only ever written with
  \<^verbatim>\<open>true\<close>; it is modelled as the set of the indices that hold \<^verbatim>\<open>true\<close>
  (a read beyond the end of the array gives \<^verbatim>\<open>undefined\<close>, which is falsy, and
  a write there extends the array).
\<close>

definition push_all :: "nat \<Rightarrow> arc list \<Rightarrow> edge list \<Rightarrow> edge list" where
  "push_all x arcs h = foldl (\<lambda>h a. push h (Edge x (to a) (aw a))) h arcs"

definition push_unvisited :: "nat set \<Rightarrow> nat \<Rightarrow> arc list \<Rightarrow> edge list \<Rightarrow> edge list" where
  "push_unvisited visited x arcs h =
     foldl (\<lambda>h a. if to a \<notin> visited then push h (Edge x (to a) (aw a)) else h) h arcs"

lemma length_swap [simp]: "length (swap xs i j) = length xs"
  by (simp add: swap_def)

lemma length_bubbleDown [simp]: "length (bubbleDown d i) = length d"
proof (induction d i rule: bubbleDown.induct)
  case (1 d i)
  show ?case
    by (subst bubbleDown.simps) (use 1 in \<open>simp add: Let_def\<close>)
qed

lemma length_pop: "pop h = (x, h') \<Longrightarrow> h \<noteq> [] \<Longrightarrow> length h' < length h"
  by (simp add: pop_def Let_def split: if_splits) (auto simp: length_greater_0_conv [symmetric] simp del: length_greater_0_conv)

text \<open>
  The \<^verbatim>\<open>while\<close> loop. The arguments are \<open>n\<close>, \<open>adj\<close>, \<^verbatim>\<open>visited\<close>, the
  heap's array, \<^verbatim>\<open>mst\<close> and \<^verbatim>\<open>total\<close>. The loop ends: an iteration either
  drops a stale heap item or marks a new vertex that has an adjacency list.
\<close>

function prim_loop ::
  "nat \<Rightarrow> arc list list \<Rightarrow> nat set \<Rightarrow> edge list \<Rightarrow> edge list \<Rightarrow> number \<Rightarrow>
     error + (edge list \<times> number)" where
  "prim_loop n adj visited h m t =
     (if length h > 0 \<and> int (length m) < int n - 1 then
        (case pop h of
           (None, h') \<Rightarrow> Inl TypeError
         | (Some e, h') \<Rightarrow>
             if ev e \<in> visited then prim_loop n adj visited h' m t
             else if ev e < length adj then
               prim_loop n adj (insert (ev e) visited)
                 (push_unvisited (insert (ev e) visited) (ev e) (adj ! ev e) h')
                 (m @ [Edge (eu e) (ev e) (ew e)]) (js_add t (ew e))
             else Inl TypeError)
      else Inr (m, t))"
  by pat_completeness auto
termination
proof (relation "measures [\<lambda>(n, adj, visited, h, m, t). card ({0..<length adj} - visited),
                            \<lambda>(n, adj, visited, h, m, t). length h]", goal_cases)
  case 1
  show ?case by simp
next
  case (2 n adj visited h m t x h' e)
  from 2 have "pop h = (Some e, h')" "h \<noteq> []" by simp_all
  then have "length h' < length h" by (rule length_pop)
  then show ?case by simp
next
  case (3 n adj visited h m t x h' e)
  from 3 have "ev e \<in> {0..<length adj} - visited" by simp
  then have "{0..<length adj} - insert (ev e) visited \<subset> {0..<length adj} - visited"
    by blast
  then have "card ({0..<length adj} - insert (ev e) visited) < card ({0..<length adj} - visited)"
    by (intro psubset_card_mono) simp_all
  then show ?case by simp
qed

declare prim_loop.simps [simp del]

definition primMST :: "nat \<Rightarrow> arc list list \<Rightarrow> nat \<Rightarrow> error + mst_result" where
  "primMST n adj start =
     (if start < length adj then
        (case prim_loop n adj {start} (push_all start (adj ! start) []) [] (Finite 0) of
           Inl e \<Rightarrow> Inl e
         | Inr (m, t) \<Rightarrow>
             if int (length m) \<noteq> int n - 1 then Inl NotConnected
             else Inr \<lparr>mst = m, total = t\<rparr>)
      else Inl TypeError)"

text \<open>Prim on an edge list: \<^verbatim>\<open>primMST(n, buildAdj(n, edges), start)\<close>.\<close>

definition prim_of_edges :: "nat \<Rightarrow> edge list \<Rightarrow> nat \<Rightarrow> error + mst_result" where
  "prim_of_edges n edges start =
     (case buildAdj n edges of Inl e \<Rightarrow> Inl e | Inr adj \<Rightarrow> primMST n adj start)"

section \<open>Union-Find: roots and sets\<close>

text \<open>An array as the map from keys to values that its reads show.\<close>

lemma aget_aput: "aget (aput a k v) k' = (if k' = k then v else aget a k')"
proof (cases k)
  case Undefined
  then show ?thesis by (cases k') simp_all
next
  case (Num i)
  show ?thesis
  proof (cases k')
    case Undefined
    with Num show ?thesis by simp
  next
    case (Num j)
    with \<open>k = Num i\<close> show ?thesis
      by (auto simp: nth_append nth_list_update)
  qed
qed

lemma aget_aput_fun: "aget (aput a k v) = (aget a)(k := v)"
  by (rule ext) (simp add: aget_aput)

text \<open>
  \<open>root_of f x r\<close>: following the parent pointers \<open>f\<close> from \<open>x\<close> ends in the root
  \<open>r\<close> (a key that points to itself).
\<close>

inductive root_of :: "(jsval \<Rightarrow> jsval) \<Rightarrow> jsval \<Rightarrow> jsval \<Rightarrow> bool" for f :: "jsval \<Rightarrow> jsval" where
  root: "f x = x \<Longrightarrow> root_of f x x"
| step: "f x \<noteq> x \<Longrightarrow> root_of f (f x) r \<Longrightarrow> root_of f x r"

lemma root_of_det: "root_of f x r \<Longrightarrow> root_of f x r' \<Longrightarrow> r = r'"
proof (induction arbitrary: r' rule: root_of.induct)
  case (root x)
  from root.prems root.hyps show ?case by (cases rule: root_of.cases) auto
next
  case (step x r)
  from step.prems step.hyps(1) have "root_of f (f x) r'"
    by (cases rule: root_of.cases) auto
  then show ?case by (rule step.IH)
qed

lemma root_of_is_root: "root_of f x r \<Longrightarrow> f r = r"
  by (induction rule: root_of.induct) simp_all

lemma root_of_self: "root_of f x r \<Longrightarrow> root_of f r r"
  using root_of_is_root [of f x r] by (simp add: root_of.root)

lemma root_of_fixed: "root_of f i r \<Longrightarrow> f i = i \<Longrightarrow> r = i"
  by (cases rule: root_of.cases) auto

lemma compress_fwd:
  assumes xr: "root_of f x r" and ys: "root_of f y s"
  shows "root_of (f(x := r)) y s"
proof -
  define g where "g = f(x := r)"
  have g: "g z = (if z = x then r else f z)" for z by (simp add: g_def)
  from xr have rr: "f r = r" by (rule root_of_is_root)
  from ys have "root_of g y s"
  proof (induction rule: root_of.induct)
    case (root y)
    show ?case
    proof (cases "y = x")
      case True
      with root xr have "r = x" using root_of_fixed [of f x r] by simp
      with True root have "g y = y" by (simp add: g)
      then show ?thesis by (rule root_of.root)
    next
      case False
      with root have "g y = y" by (simp add: g)
      then show ?thesis by (rule root_of.root)
    qed
  next
    case (step y s)
    show ?case
    proof (cases "y = x")
      case True
      from step.hyps have "root_of f y s" by (rule root_of.step)
      with True xr have sr: "s = r" using root_of_det [of f x s r] by simp
      from True step.hyps rr have "r \<noteq> x" by auto
      with rr have "g r = r" by (simp add: g)
      then have "root_of g r r" by (rule root_of.root)
      moreover have "g y = r" "g y \<noteq> y" using True \<open>r \<noteq> x\<close> by (simp_all add: g)
      ultimately show ?thesis using sr by - (rule root_of.step, simp_all)
    next
      case False
      then have "g y = f y" by (simp add: g)
      with step show ?thesis by - (rule root_of.step, simp_all)
    qed
  qed
  then show ?thesis by (simp only: g_def)
qed

lemma compress_bwd:
  assumes xr: "root_of f x r" and ys: "root_of (f(x := r)) y s"
  shows "root_of f y s"
proof -
  define g where "g = f(x := r)"
  have g: "g z = (if z = x then r else f z)" for z by (simp add: g_def)
  from ys have "root_of g y s" by (simp only: g_def)
  then show ?thesis
  proof (induction rule: root_of.induct)
    case (root y)
    show ?case
    proof (cases "y = x")
      case True
      with root have "r = x" by (simp add: g)
      with xr True show ?thesis using root_of_self [of f x r] by simp
    next
      case False
      with root have "f y = y" by (simp add: g)
      then show ?thesis by (rule root_of.root)
    qed
  next
    case (step y s)
    show ?case
    proof (cases "y = x")
      case True
      then have "g y = r" by (simp add: g)
      with step.IH have "root_of f r s" by simp
      moreover from xr have "root_of f r r" by (rule root_of_self)
      ultimately have "s = r" using root_of_det [of f r s r] by simp
      with xr True show ?thesis by simp
    next
      case False
      then have "g y = f y" by (simp add: g)
      with step show ?thesis by - (rule root_of.step, simp_all)
    qed
  qed
qed

lemma compress_iff: "root_of f x r \<Longrightarrow> root_of (f(x := r)) y s \<longleftrightarrow> root_of f y s"
  using compress_fwd compress_bwd by blast

text \<open>\<^verbatim>\<open>find\<close> returns the root and keeps every key's root (path compression).\<close>

lemma find_ds_root:
  "root_of (aget p) x r \<Longrightarrow>
     \<exists>p'. find_ds p x = Some (p', r) \<and> (\<forall>y s. root_of (aget p') y s \<longleftrightarrow> root_of (aget p) y s)"
proof (induction rule: root_of.induct)
  case (root x)
  then show ?case by (subst find_ds.simps) simp
next
  case (step x r)
  then obtain p1 where p1: "find_ds p (aget p x) = Some (p1, r)"
    "\<forall>y s. root_of (aget p1) y s \<longleftrightarrow> root_of (aget p) y s" by blast
  from step.hyps have "root_of (aget p) x r" by (rule root_of.step)
  with p1 have xr: "root_of (aget p1) x r" by simp
  have "find_ds p x = Some (aput p1 x r, r)"
    using step.hyps p1 by (subst find_ds.simps) (simp add: aget_aput)
  moreover have "\<forall>y s. root_of (aget (aput p1 x r)) y s \<longleftrightarrow> root_of (aget p) y s"
    using compress_iff [OF xr] p1(2) by (simp add: aget_aput_fun)
  ultimately show ?case by simp
qed

text \<open>
  \<open>uf_ok f\<close>: every key leads to a root (the parent pointers form a forest).
  \<open>same_set f a b\<close>: \<open>a\<close> and \<open>b\<close> have the same root. \<open>roots f\<close>: the roots.
\<close>

definition uf_ok :: "(jsval \<Rightarrow> jsval) \<Rightarrow> bool" where
  "uf_ok f \<longleftrightarrow> (\<forall>x. \<exists>r. root_of f x r)"

definition same_set :: "(jsval \<Rightarrow> jsval) \<Rightarrow> jsval \<Rightarrow> jsval \<Rightarrow> bool" where
  "same_set f a b \<longleftrightarrow> (\<exists>r. root_of f a r \<and> root_of f b r)"

definition roots :: "(jsval \<Rightarrow> jsval) \<Rightarrow> jsval set" where
  "roots f = {k. f k = k}"

lemma same_set_roots: "root_of f x sx \<Longrightarrow> root_of f y sy \<Longrightarrow> same_set f x y \<longleftrightarrow> sx = sy"
  unfolding same_set_def using root_of_det by blast

lemma finite_roots: "finite (roots (aget p))"
proof (rule finite_subset)
  show "roots (aget p) \<subseteq> insert Undefined (Num ` {0..<length (cells p)})"
  proof
    fix k assume k: "k \<in> roots (aget p)"
    show "k \<in> insert Undefined (Num ` {0..<length (cells p)})"
    proof (cases k)
      case Undefined
      then show ?thesis by simp
    next
      case (Num i)
      with k have "i < length (cells p)" by (auto simp: roots_def split: if_splits)
      with Num show ?thesis by simp
    qed
  qed
qed simp

text \<open>Linking one root below another root.\<close>

lemma link_keep:
  assumes ra: "f ra = ra" and ys: "root_of f y s" and ne: "s \<noteq> ra"
  shows "root_of (f(ra := rb)) y s"
proof -
  define g where "g = f(ra := rb)"
  have g: "g z = (if z = ra then rb else f z)" for z by (simp add: g_def)
  from ys ne have "root_of g y s"
  proof (induction rule: root_of.induct)
    case (root y)
    then have "g y = y" by (simp add: g)
    then show ?case by (rule root_of.root)
  next
    case (step y s)
    from step.hyps ra have "y \<noteq> ra" by auto
    then have "g y = f y" by (simp add: g)
    with step show ?case by - (rule root_of.step, simp_all)
  qed
  then show ?thesis by (simp only: g_def)
qed

lemma link_move:
  assumes rb: "root_of f rb rb" and ne: "rb \<noteq> ra" and ys: "root_of f y ra"
  shows "root_of (f(ra := rb)) y rb"
proof -
  define g where "g = f(ra := rb)"
  have g: "g z = (if z = ra then rb else f z)" for z by (simp add: g_def)
  from ys have fra: "f ra = ra" by (rule root_of_is_root)
  from rb have "f rb = rb" by (rule root_of_is_root)
  with ne have "g rb = rb" by (simp add: g)
  then have grb: "root_of g rb rb" by (rule root_of.root)
  have "root_of f y s \<Longrightarrow> s = ra \<Longrightarrow> root_of g y rb" for s
  proof (induction rule: root_of.induct)
    case (root y)
    with ne have "g y = rb" "g y \<noteq> y" by (simp_all add: g)
    with grb show ?case by - (rule root_of.step, simp_all)
  next
    case (step y s)
    from step.hyps fra step.prems have "y \<noteq> ra" by auto
    then have "g y = f y" by (simp add: g)
    with step show ?case by - (rule root_of.step, simp_all)
  qed
  from this [OF ys refl] show ?thesis by (simp only: g_def)
qed

lemma link_root_of:
  assumes "root_of f ra ra" "root_of f rb rb" "ra \<noteq> rb" "root_of f y s"
  shows "root_of (f(ra := rb)) y (if s = ra then rb else s)"
proof (cases "s = ra")
  case True
  with assms show ?thesis using link_move [of f rb ra y] by simp
next
  case False
  with assms show ?thesis
    using link_keep [of f ra y s rb] root_of_is_root [of f ra ra] by simp
qed

lemma link_uf_ok:
  assumes "uf_ok f" "root_of f ra ra" "root_of f rb rb" "ra \<noteq> rb"
  shows "uf_ok (f(ra := rb))"
  unfolding uf_ok_def
proof
  fix x
  from assms(1) obtain s where "root_of f x s" by (auto simp: uf_ok_def)
  from link_root_of [OF assms(2,3,4) this] show "\<exists>r. root_of (f(ra := rb)) x r" by blast
qed

lemma link_same_set:
  assumes "root_of f ra ra" "root_of f rb rb" "ra \<noteq> rb"
    and "root_of f x sx" "root_of f y sy"
  shows "same_set (f(ra := rb)) x y \<longleftrightarrow> sx = sy \<or> (sx = ra \<and> sy = rb) \<or> (sx = rb \<and> sy = ra)"
proof -
  have "same_set (f(ra := rb)) x y \<longleftrightarrow> (if sx = ra then rb else sx) = (if sy = ra then rb else sy)"
    by (rule same_set_roots) (rule link_root_of [OF assms(1,2,3)], fact)+
  then show ?thesis using assms(3) by auto
qed

lemma link_roots:
  assumes "f ra = ra" "ra \<noteq> rb"
  shows "roots (f(ra := rb)) = roots f - {ra}"
  using assms by (auto simp: roots_def)

lemma roots_iff: "i \<in> roots f \<longleftrightarrow> root_of f i i"
  using root_of_is_root [of f i i] by (auto simp: roots_def root_of.root)

lemma roots_cong: "(\<forall>y s. root_of f' y s \<longleftrightarrow> root_of f y s) \<Longrightarrow> roots f' = roots f"
  by (auto simp: roots_iff)

lemma uf_ok_cong: "(\<forall>y s. root_of f' y s \<longleftrightarrow> root_of f y s) \<Longrightarrow> uf_ok f' = uf_ok f"
  by (simp add: uf_ok_def)

lemma same_set_cong: "(\<forall>y s. root_of f' y s \<longleftrightarrow> root_of f y s) \<Longrightarrow> same_set f' = same_set f"
  by (simp add: same_set_def fun_eq_iff)


text \<open>
  \<^verbatim>\<open>union\<close>: it returns, the answer says whether the two sets were different, the
  sets of \<open>a\<close> and \<open>b\<close> are merged and nothing else changes, and a merge removes
  exactly one root.
\<close>

lemma union_ds_correct:
  assumes ok: "uf_ok (aget (parent ds))"
  shows "\<exists>ds'. union_ds ds a b = Some (ds', \<not> same_set (aget (parent ds)) a b) \<and>
           uf_ok (aget (parent ds')) \<and>
           (\<forall>x y. same_set (aget (parent ds')) x y \<longleftrightarrow>
                same_set (aget (parent ds)) x y \<or>
                (same_set (aget (parent ds)) x a \<and> same_set (aget (parent ds)) b y) \<or>
                (same_set (aget (parent ds)) x b \<and> same_set (aget (parent ds)) a y)) \<and>
           card (roots (aget (parent ds'))) + (if same_set (aget (parent ds)) a b then 0 else 1) =
             card (roots (aget (parent ds)))"
proof -
  define p where "p = parent ds"
  define f where "f = aget p"
  from ok obtain ra rb where ra: "root_of f a ra" and rb: "root_of f b rb"
    unfolding uf_ok_def p_def f_def by blast
  from find_ds_root [of p a ra] ra obtain p1 where p1: "find_ds p a = Some (p1, ra)"
    "\<forall>y s. root_of (aget p1) y s \<longleftrightarrow> root_of f y s" unfolding f_def by blast
  from rb p1(2) have "root_of (aget p1) b rb" by simp
  from find_ds_root [OF this] obtain p2 where p2: "find_ds p1 b = Some (p2, rb)"
    "\<forall>y s. root_of (aget p2) y s \<longleftrightarrow> root_of (aget p1) y s" by blast
  define f2 where "f2 = aget p2"
  have eq: "\<forall>y s. root_of f2 y s \<longleftrightarrow> root_of f y s" using p1(2) p2(2) by (simp add: f2_def)
  have ok2: "uf_ok f2" using uf_ok_cong [OF eq] ok by (simp add: p_def f_def)
  have ss2: "same_set f2 = same_set f" using same_set_cong [OF eq] .
  have ro2: "roots f2 = roots f" using roots_cong [OF eq] .
  have sab: "same_set f a b \<longleftrightarrow> ra = rb" using same_set_roots [OF ra rb] .
  have rra: "root_of f2 ra ra" using root_of_self [OF ra] eq by simp
  have rrb: "root_of f2 rb rb" using root_of_self [OF rb] eq by simp
  have fin: "finite (roots f2)" unfolding f2_def by (rule finite_roots)
  have rel: "same_set f x y \<longleftrightarrow> sx = sy" "same_set f x a \<longleftrightarrow> sx = ra" "same_set f x b \<longleftrightarrow> sx = rb"
    "same_set f a y \<longleftrightarrow> ra = sy" "same_set f b y \<longleftrightarrow> rb = sy"
    if "root_of f x sx" "root_of f y sy" for x y sx sy
    using that ra rb by (simp_all add: same_set_roots)
  show ?thesis
  proof (cases "ra = rb")
    case True
    have "union_ds ds a b = Some (ds\<lparr>parent := p2\<rparr>, False)"
      using p1(1) p2(1) True by (simp add: union_ds_def p_def [symmetric])
    moreover have "\<forall>x y. same_set f2 x y \<longleftrightarrow>
        same_set f x y \<or> (same_set f x a \<and> same_set f b y) \<or> (same_set f x b \<and> same_set f a y)"
    proof (intro allI)
      fix x y
      from ok obtain sx sy where "root_of f x sx" "root_of f y sy"
        unfolding uf_ok_def p_def f_def by blast
      from rel [OF this] True ss2 show "same_set f2 x y \<longleftrightarrow>
        same_set f x y \<or> (same_set f x a \<and> same_set f b y) \<or> (same_set f x b \<and> same_set f a y)"
        by auto
    qed
    ultimately show ?thesis
      using True sab ok2 ro2
      by (intro exI [of _ "ds\<lparr>parent := p2\<rparr>"]) (simp add: p_def [symmetric] f_def [symmetric] f2_def [symmetric])
  next
    case False
    define lt where "lt = js_less (aget (rank ds) ra) (aget (rank ds) rb)"
    define gt where "gt = js_less (aget (rank ds) rb) (aget (rank ds) ra)"
    define q where "q = (if lt then aput p2 ra rb else aput p2 rb ra)"
    define k where "k = (if lt \<or> gt then rank ds
       else aput (rank ds) ra (js_succ (aget (rank ds) ra)))"
    define g where "g = aget q"
    have un: "union_ds ds a b = Some (ds\<lparr>parent := q, rank := k\<rparr>, True)"
      using p1(1) p2(1) False
      by (simp add: union_ds_def p_def [symmetric] q_def k_def lt_def gt_def)
    have gq: "g = (if lt then f2(ra := rb) else f2(rb := ra))"
      by (simp add: g_def q_def f2_def aget_aput_fun)
    have okq: "uf_ok g"
      using link_uf_ok [OF ok2 rra rrb False] link_uf_ok [OF ok2 rrb rra] False
      by (simp add: gq)
    have rq: "roots g = roots f2 - {ra} \<or> roots g = roots f2 - {rb}"
      using link_roots [of f2 ra rb] link_roots [of f2 rb ra] False
        root_of_is_root [OF rra] root_of_is_root [OF rrb] by (auto simp: gq)
    have "ra \<in> roots f2" "rb \<in> roots f2" using rra rrb by (simp_all add: roots_iff)
    then have "Suc (card (roots f2 - {ra})) = card (roots f2)"
      "Suc (card (roots f2 - {rb})) = card (roots f2)"
      using fin by (simp_all only: card_Suc_Diff1)
    with rq have cq: "card (roots g) + 1 = card (roots f2)"
      by (elim disjE) simp_all
    have relq: "\<forall>x y. same_set g x y \<longleftrightarrow>
        same_set f x y \<or> (same_set f x a \<and> same_set f b y) \<or> (same_set f x b \<and> same_set f a y)"
    proof (intro allI)
      fix x y
      from ok obtain sx sy where s: "root_of f x sx" "root_of f y sy"
        unfolding uf_ok_def p_def f_def by blast
      then have s2: "root_of f2 x sx" "root_of f2 y sy" using eq by simp_all
      have "same_set g x y \<longleftrightarrow> sx = sy \<or> (sx = ra \<and> sy = rb) \<or> (sx = rb \<and> sy = ra)"
        using link_same_set [OF rra rrb False s2] link_same_set [OF rrb rra _ s2] False
        by (auto simp: gq)
      with rel [OF s] show "same_set g x y \<longleftrightarrow>
        same_set f x y \<or> (same_set f x a \<and> same_set f b y) \<or> (same_set f x b \<and> same_set f a y)"
        by auto
    qed
    show ?thesis
      using un False sab okq relq cq ro2
      by (intro exI [of _ "ds\<lparr>parent := q, rank := k\<rparr>"])
         (simp add: p_def [symmetric] f_def [symmetric] g_def [symmetric])
  qed
qed

text \<open>
  The structure the constructor builds: every vertex is its own root,
  \<^verbatim>\<open>undefined\<close> is a root, and every number that is not a vertex leads to the root
  \<^verbatim>\<open>undefined\<close>.
\<close>

lemma fresh_aget:
  "aget (parent (DisjointSet n)) (Num i) = (if i < n then Num i else Undefined)"
  "aget (parent (DisjointSet n)) Undefined = Undefined"
  by (simp_all add: DisjointSet_def)

lemma fresh_root_of: "x < n \<Longrightarrow> root_of (aget (parent (DisjointSet n))) (Num x) (Num x)"
  by (rule root_of.root) (simp add: DisjointSet_def)

lemma fresh_root_undefined: "root_of (aget (parent (DisjointSet n))) Undefined Undefined"
  by (rule root_of.root) (simp add: DisjointSet_def)

lemma fresh_root_outside:
  "\<not> x < n \<Longrightarrow> root_of (aget (parent (DisjointSet n))) (Num x) Undefined"
proof (rule root_of.step)
  assume "\<not> x < n"
  then show "aget (parent (DisjointSet n)) (Num x) \<noteq> Num x" by (simp add: DisjointSet_def)
  assume "\<not> x < n"
  then have "aget (parent (DisjointSet n)) (Num x) = Undefined" by (simp add: DisjointSet_def)
  then show "root_of (aget (parent (DisjointSet n))) (aget (parent (DisjointSet n)) (Num x)) Undefined"
    by (simp only: fresh_root_undefined)
qed

lemma fresh_uf_ok: "uf_ok (aget (parent (DisjointSet n)))"
  unfolding uf_ok_def
proof
  fix k
  show "\<exists>r. root_of (aget (parent (DisjointSet n))) k r"
  proof (cases k)
    case Undefined
    with fresh_root_undefined show ?thesis by blast
  next
    case (Num x)
    with fresh_root_of [of x n] fresh_root_outside [of x n] show ?thesis by blast
  qed
qed

lemma fresh_same_set:
  "a < n \<Longrightarrow> b < n \<Longrightarrow> same_set (aget (parent (DisjointSet n))) (Num a) (Num b) \<longleftrightarrow> a = b"
  using same_set_roots [OF fresh_root_of fresh_root_of] by simp

lemma fresh_roots: "roots (aget (parent (DisjointSet n))) = insert Undefined (Num ` {0..<n})"
proof (rule set_eqI)
  fix k
  show "k \<in> roots (aget (parent (DisjointSet n))) \<longleftrightarrow> k \<in> insert Undefined (Num ` {0..<n})"
    by (cases k) (auto simp: roots_def DisjointSet_def)
qed

lemma fresh_card_roots: "card (roots (aget (parent (DisjointSet n)))) = Suc n"
proof -
  have "card (Num ` {0..<n}) = n" by (simp add: card_image inj_on_def)
  moreover have "Undefined \<notin> Num ` {0..<n}" by auto
  ultimately show ?thesis by (simp add: fresh_roots)
qed

text \<open>
  The structures a program can hold: the constructor's, and what \<^verbatim>\<open>find\<close> and
  \<^verbatim>\<open>union\<close> make of them.
\<close>

inductive reachable_ds :: "nat \<Rightarrow> disjoint_set \<Rightarrow> bool" for n :: nat where
  fresh: "reachable_ds n (DisjointSet n)"
| after_find: "reachable_ds n ds \<Longrightarrow> find_ds (parent ds) x = Some (p', r) \<Longrightarrow>
     reachable_ds n (ds\<lparr>parent := p'\<rparr>)"
| after_union: "reachable_ds n ds \<Longrightarrow> union_ds ds a b = Some (ds', r) \<Longrightarrow> reachable_ds n ds'"

lemma reachable_ds_ok: "reachable_ds n ds \<Longrightarrow> uf_ok (aget (parent ds))"
proof (induction rule: reachable_ds.induct)
  case fresh
  show ?case by (rule fresh_uf_ok)
next
  case (after_find ds x p' r)
  then obtain s where "root_of (aget (parent ds)) x s" unfolding uf_ok_def by blast
  from find_ds_root [OF this] after_find show ?case
    using uf_ok_cong [of "aget p'" "aget (parent ds)"] by auto
next
  case (after_union ds a b ds' r)
  then show ?case using union_ds_correct [of ds a b] by auto
qed

lemma union_ds_twice:
  assumes ok: "uf_ok (aget (parent ds))"
  shows "\<exists>ds1 ds2. union_ds ds a b = Some (ds1, \<not> same_set (aget (parent ds)) a b) \<and>
           union_ds ds1 a b = Some (ds2, False)"
proof -
  from union_ds_correct [OF ok, of a b] obtain ds1 where
    1: "union_ds ds a b = Some (ds1, \<not> same_set (aget (parent ds)) a b)"
       "uf_ok (aget (parent ds1))"
    and rel: "\<forall>x y. same_set (aget (parent ds1)) x y \<longleftrightarrow>
                same_set (aget (parent ds)) x y \<or>
                (same_set (aget (parent ds)) x a \<and> same_set (aget (parent ds)) b y) \<or>
                (same_set (aget (parent ds)) x b \<and> same_set (aget (parent ds)) a y)"
    by blast
  from ok obtain ra rb where "root_of (aget (parent ds)) a ra" "root_of (aget (parent ds)) b rb"
    unfolding uf_ok_def by blast
  then have "same_set (aget (parent ds)) a a" "same_set (aget (parent ds)) b b"
    by (auto simp: same_set_def)
  with rel have same: "same_set (aget (parent ds1)) a b" by blast
  from union_ds_correct [OF 1(2), of a b] same obtain ds2 where
    "union_ds ds1 a b = Some (ds2, False)" by auto
  with 1(1) show ?thesis by blast
qed

section \<open>Calling union twice\<close>

text \<open>
  Claim C6, as amended. On every structure reached from \<^verbatim>\<open>new DisjointSet(n)\<close>,
  \<^verbatim>\<open>union(a, b)\<close> returns true exactly when \<open>a\<close> and \<open>b\<close> are in different sets
  before the call, and the \<^verbatim>\<open>union(a, b)\<close> that follows at once returns false. So for
  two distinct vertices of a new structure the two calls return true and then false. (As
  the claim is written, for any two vertices of any DisjointSet, it does not hold: the
  first call returns false when the two are already in one set, which is the cycle test
  of Kruskal's algorithm.)
\<close>

theorem union_twice_true_then_false:
  "(reachable_ds n ds \<longrightarrow>
      (\<exists>ds1 ds2. union_ds ds (Num a) (Num b) =
                   Some (ds1, \<not> same_set (aget (parent ds)) (Num a) (Num b)) \<and>
                 union_ds ds1 (Num a) (Num b) = Some (ds2, False))) \<and>
   (a < n \<and> b < n \<and> a \<noteq> b \<longrightarrow>
      (\<exists>ds1 ds2. union_ds (DisjointSet n) (Num a) (Num b) = Some (ds1, True) \<and>
                 union_ds ds1 (Num a) (Num b) = Some (ds2, False)))"
proof (intro conjI impI)
  assume "reachable_ds n ds"
  then have "uf_ok (aget (parent ds))" by (rule reachable_ds_ok)
  then show "\<exists>ds1 ds2. union_ds ds (Num a) (Num b) =
                   Some (ds1, \<not> same_set (aget (parent ds)) (Num a) (Num b)) \<and>
                 union_ds ds1 (Num a) (Num b) = Some (ds2, False)"
    by (rule union_ds_twice)
next
  assume "a < n \<and> b < n \<and> a \<noteq> b"
  then show "\<exists>ds1 ds2. union_ds (DisjointSet n) (Num a) (Num b) = Some (ds1, True) \<and>
                 union_ds ds1 (Num a) (Num b) = Some (ds2, False)"
    using union_ds_twice [OF fresh_uf_ok, of n "Num a" "Num b"] fresh_same_set [of a n b]
    by simp
qed

text \<open>The theorem at \<open>n = 2\<close>, \<open>a = 0\<close>, \<open>b = 1\<close> on the new structure.\<close>

theorem union_twice_witness:
  "(0::nat) < 2 \<and> (1::nat) < 2 \<and> (0::nat) \<noteq> 1 \<and> reachable_ds 2 (DisjointSet 2) \<and>
   (\<exists>ds1 ds2. union_ds (DisjointSet 2) (Num 0) (Num 1) = Some (ds1, True) \<and>
              union_ds ds1 (Num 0) (Num 1) = Some (ds2, False))"
  using union_twice_true_then_false [of 2 "DisjointSet 2" 0 1] reachable_ds.fresh [of 2]
  by simp

text \<open>
  The claim as it is written fails for \<open>a = b\<close>, and for two distinct vertices that an
  earlier \<^verbatim>\<open>union\<close> has joined: the first call of the pair returns false.
\<close>

theorem union_twice_counterexample:
  "union_ds (DisjointSet 1) (Num 0) (Num 0) = Some (DisjointSet 1, False) \<and>
   union_ds (DisjointSet 2) (Num 0) (Num 1) =
     Some (\<lparr>parent = \<lparr>cells = [Num 0, Num 0], undefined_prop = Undefined\<rparr>,
             rank = \<lparr>cells = [Num 1, Num 0], undefined_prop = Undefined\<rparr>\<rparr>, True) \<and>
   union_ds \<lparr>parent = \<lparr>cells = [Num 0, Num 0], undefined_prop = Undefined\<rparr>,
             rank = \<lparr>cells = [Num 1, Num 0], undefined_prop = Undefined\<rparr>\<rparr> (Num 0) (Num 1) =
     Some (\<lparr>parent = \<lparr>cells = [Num 0, Num 0], undefined_prop = Undefined\<rparr>,
             rank = \<lparr>cells = [Num 1, Num 0], undefined_prop = Undefined\<rparr>\<rparr>, False)"
  by code_simp

section \<open>The worked example\<close>

text \<open>
  Claim C7. For \<open>n = 4\<close> and the edges \<open>(0,1,1), (1,2,2), (2,3,3), (0,3,10)\<close>, Kruskal's
  algorithm and Prim's algorithm (on the adjacency lists \<^verbatim>\<open>buildAdj\<close> makes, from
  the start vertex 0 that the program uses) both return the edges
  \<open>(0,1,1), (1,2,2), (2,3,3)\<close> and the total weight 6. From the start vertices 1, 2
  and 3 Prim's algorithm returns the same three edges and the same total, each edge
  written from the visited vertex to the new one.
\<close>

theorem example_n4:
  "kruskalMST 4 [Edge 0 1 1, Edge 1 2 2, Edge 2 3 3, Edge 0 3 10] =
     Some (Inr \<lparr>mst = [Edge 0 1 1, Edge 1 2 2, Edge 2 3 3], total = Finite 6\<rparr>) \<and>
   prim_of_edges 4 [Edge 0 1 1, Edge 1 2 2, Edge 2 3 3, Edge 0 3 10] 0 =
     Inr \<lparr>mst = [Edge 0 1 1, Edge 1 2 2, Edge 2 3 3], total = Finite 6\<rparr> \<and>
   buildAdj 4 [Edge 0 1 1, Edge 1 2 2, Edge 2 3 3, Edge 0 3 10] =
     Inr [[Arc 1 1, Arc 3 10], [Arc 0 1, Arc 2 2], [Arc 1 2, Arc 3 3], [Arc 2 3, Arc 0 10]] \<and>
   primMST 4 [[Arc 1 1, Arc 3 10], [Arc 0 1, Arc 2 2], [Arc 1 2, Arc 3 3], [Arc 2 3, Arc 0 10]] 0 =
     Inr \<lparr>mst = [Edge 0 1 1, Edge 1 2 2, Edge 2 3 3], total = Finite 6\<rparr> \<and>
   prim_of_edges 4 [Edge 0 1 1, Edge 1 2 2, Edge 2 3 3, Edge 0 3 10] 1 =
     Inr \<lparr>mst = [Edge 1 0 1, Edge 1 2 2, Edge 2 3 3], total = Finite 6\<rparr> \<and>
   prim_of_edges 4 [Edge 0 1 1, Edge 1 2 2, Edge 2 3 3, Edge 0 3 10] 2 =
     Inr \<lparr>mst = [Edge 2 1 2, Edge 1 0 1, Edge 2 3 3], total = Finite 6\<rparr> \<and>
   prim_of_edges 4 [Edge 0 1 1, Edge 1 2 2, Edge 2 3 3, Edge 0 3 10] 3 =
     Inr \<lparr>mst = [Edge 3 2 3, Edge 2 1 2, Edge 1 0 1], total = Finite 6\<rparr>"
  by code_simp


section \<open>The binary heap\<close>

text \<open>The parent of the cell \<open>j\<close> is the cell \<^verbatim>\<open>Math.floor((j - 1) / 2)\<close>.\<close>

definition par :: "nat \<Rightarrow> nat" where
  "par j = (j - 1) div 2"

lemma par_less: "0 < j \<Longrightarrow> par j < j"
  unfolding par_def by arith

lemma par_child: "0 < j \<Longrightarrow> par j = i \<longleftrightarrow> j = 2 * i + 1 \<or> j = 2 * i + 2"
  unfolding par_def by arith

text \<open>
  \<open>heap_ok d\<close> is the heap order: no cell is lighter than its parent. \<open>up_ok d i\<close>
  and \<open>down_ok d i\<close> are the heap order with one cell \<open>i\<close> out of place, as the loops
  of \<^verbatim>\<open>bubbleUp\<close> and \<^verbatim>\<open>bubbleDown\<close> see it: in \<open>up_ok\<close> the cell \<open>i\<close> may
  be lighter than its parent, in \<open>down_ok\<close> it may be heavier than its children; in both
  the children of \<open>i\<close> are not lighter than the parent of \<open>i\<close>.
\<close>

definition heap_ok :: "edge list \<Rightarrow> bool" where
  "heap_ok d \<longleftrightarrow> (\<forall>j. 0 < j \<and> j < length d \<longrightarrow> ew (d ! par j) \<le> ew (d ! j))"

definition up_ok :: "edge list \<Rightarrow> nat \<Rightarrow> bool" where
  "up_ok d i \<longleftrightarrow>
     (\<forall>j. 0 < j \<and> j < length d \<and> j \<noteq> i \<longrightarrow> ew (d ! par j) \<le> ew (d ! j)) \<and>
     (\<forall>j. 0 < j \<and> j < length d \<and> par j = i \<and> 0 < i \<longrightarrow> ew (d ! par i) \<le> ew (d ! j))"

definition down_ok :: "edge list \<Rightarrow> nat \<Rightarrow> bool" where
  "down_ok d i \<longleftrightarrow>
     (\<forall>j. 0 < j \<and> j < length d \<and> par j \<noteq> i \<longrightarrow> ew (d ! par j) \<le> ew (d ! j)) \<and>
     (\<forall>j. 0 < j \<and> j < length d \<and> par j = i \<and> 0 < i \<longrightarrow> ew (d ! par i) \<le> ew (d ! j))"

lemma nth_swap:
  "i < length xs \<Longrightarrow> j < length xs \<Longrightarrow>
     swap xs i j ! k = (if k = j then xs ! i else if k = i then xs ! j else xs ! k)"
  by (simp add: swap_def nth_list_update)

lemma mset_swap_heap: "i < length xs \<Longrightarrow> j < length xs \<Longrightarrow> mset (swap xs i j) = mset xs"
  unfolding swap_def by (simp add: mset_swap)

lemma bubbleUp_step:
  "bubbleUp d i =
     (if 0 < i then (if ew (d ! par i) \<le> ew (d ! i) then d else bubbleUp (swap d (par i) i) (par i))
      else d)"
  unfolding bubbleUp.simps [of d i] by (simp add: par_def Let_def)

lemma up_step:
  assumes u: "up_ok d i" and i: "0 < i" "i < length d" and lt: "\<not> ew (d ! par i) \<le> ew (d ! i)"
  shows "up_ok (swap d (par i) i) (par i)"
proof -
  define p where "p = par i"
  have pi: "p < i" using i par_less by (simp add: p_def)
  have pl: "p < length d" using pi i by simp
  have lt': "ew (d ! i) < ew (d ! p)" using lt by (simp add: p_def)
  have nth: "swap d p i ! k = (if k = i then d ! p else if k = p then d ! i else d ! k)" for k
    using nth_swap [OF pl i(2)] by simp
  have A: "ew (d ! par j) \<le> ew (d ! j)" if "0 < j" "j < length d" "j \<noteq> i" for j
    using u that by (simp add: up_ok_def)
  have B: "ew (d ! p) \<le> ew (d ! j)" if "0 < j" "j < length d" "par j = i" for j
    using u that i by (simp add: up_ok_def p_def)
  have 1: "ew (swap d p i ! par j) \<le> ew (swap d p i ! j)"
    if j: "0 < j" "j < length d" "j \<noteq> p" for j
  proof (cases "j = i")
    case True
    then show ?thesis using lt' pi by (simp add: nth p_def [symmetric])
  next
    case False
    note ji = this
    show ?thesis
    proof (cases "par j = i")
      case True
      then show ?thesis using B [OF j(1,2) True] ji j(3) by (simp add: nth)
    next
      case False
      then show ?thesis using A [OF j(1,2) ji] lt' ji j(3)
        by (cases "par j = p") (simp_all add: nth)
    qed
  qed
  have 2: "ew (swap d p i ! par p) \<le> ew (swap d p i ! j)"
    if j: "0 < j" "j < length d" "par j = p" "0 < p" for j
  proof -
    have pp: "par p < p" using j(4) by (rule par_less)
    have jp: "j \<noteq> p" using par_less [OF j(1)] j(3) by simp
    have a: "ew (d ! par p) \<le> ew (d ! p)" using A [of p] pl pi j(4) by simp
    show ?thesis
    proof (cases "j = i")
      case True
      then show ?thesis using a pp pi by (simp add: nth)
    next
      case False
      then have "ew (d ! p) \<le> ew (d ! j)" using A [OF j(1,2)] j(3) by simp
      then show ?thesis using a pp pi jp False by (simp add: nth)
    qed
  qed
  show ?thesis unfolding up_ok_def p_def [symmetric] using 1 2 by simp
qed

lemma bubbleUp_ok:
  "up_ok d i \<Longrightarrow> i < length d \<Longrightarrow>
     heap_ok (bubbleUp d i) \<and> mset (bubbleUp d i) = mset d \<and> length (bubbleUp d i) = length d"
proof (induction d i rule: bubbleUp.induct)
  case (1 d i)
  show ?case
  proof (cases "0 < i")
    case False
    with "1.prems" show ?thesis
      by (subst (1 2 3) bubbleUp_step) (simp add: up_ok_def heap_ok_def)
  next
    case True
    define p where "p = par i"
    have pi: "p < i" using True par_less by (simp add: p_def)
    show ?thesis
    proof (cases "ew (d ! p) \<le> ew (d ! i)")
      case le: True
      have "heap_ok d" unfolding heap_ok_def
      proof (intro allI impI)
        fix j assume "0 < j \<and> j < length d"
        then show "ew (d ! par j) \<le> ew (d ! j)"
          using "1.prems"(1) le by (cases "j = i") (simp_all add: up_ok_def p_def)
      qed
      then show ?thesis using True le
        by (subst (1 2 3) bubbleUp_step) (simp add: p_def)
    next
      case gt: False
      have step: "up_ok (swap d p i) p"
        using up_step [OF "1.prems"(1) True "1.prems"(2)] gt by (simp add: p_def)
      have "p < length (swap d p i)" using pi "1.prems"(2) by simp
      from "1.IH" [OF True _ _ step this] gt
      have "heap_ok (bubbleUp (swap d p i) p) \<and> mset (bubbleUp (swap d p i) p) = mset (swap d p i)
         \<and> length (bubbleUp (swap d p i) p) = length (swap d p i)" by (simp add: p_def par_def)
      moreover have "mset (swap d p i) = mset d"
        using mset_swap_heap [of p d i] pi "1.prems"(2) by simp
      ultimately show ?thesis using True gt
        by (subst (1 2 3) bubbleUp_step) (simp add: p_def)
    qed
  qed
qed

lemma push_ok:
  assumes "heap_ok d"
  shows "heap_ok (push d x) \<and> mset (push d x) = add_mset x (mset d) \<and> length (push d x) = Suc (length d)"
proof -
  have "up_ok (d @ [x]) (length d)"
    unfolding up_ok_def
  proof (intro conjI allI impI)
    fix j assume j: "0 < j \<and> j < length (d @ [x]) \<and> j \<noteq> length d"
    then have "j < length d" by simp
    moreover then have "par j < length d" using par_less [of j] j by simp
    ultimately show "ew ((d @ [x]) ! par j) \<le> ew ((d @ [x]) ! j)"
      using assms j by (simp add: nth_append heap_ok_def)
  next
    fix j assume j: "0 < j \<and> j < length (d @ [x]) \<and> par j = length d \<and> 0 < length d"
    then have "par j < j" using par_less [of j] by simp
    with j show "ew ((d @ [x]) ! par (length d)) \<le> ew ((d @ [x]) ! j)" by simp
  qed
  from bubbleUp_ok [OF this] show ?thesis by (simp add: push_def)
qed


text \<open>The index \<^verbatim>\<open>smallest\<close> that one round of \<^verbatim>\<open>bubbleDown\<close> computes.\<close>

definition smallest_ix :: "edge list \<Rightarrow> nat \<Rightarrow> nat" where
  "smallest_ix d i =
     (let s1 = (if 2 * i + 1 < length d \<and> ew (d ! (2 * i + 1)) < ew (d ! i) then 2 * i + 1 else i)
      in if 2 * i + 2 < length d \<and> ew (d ! (2 * i + 2)) < ew (d ! s1) then 2 * i + 2 else s1)"

lemma bubbleDown_step:
  "bubbleDown d i =
     (if smallest_ix d i = i then d else bubbleDown (swap d i (smallest_ix d i)) (smallest_ix d i))"
proof -
  have ne: "Suc (2 * i) \<noteq> i" "Suc (Suc (2 * i)) \<noteq> i" by arith+
  show ?thesis
    unfolding bubbleDown.simps [of d i] by (auto simp add: smallest_ix_def Let_def ne)
qed

lemma smallest_le:
  "ew (d ! smallest_ix d i) \<le> ew (d ! i)"
  "2 * i + 1 < length d \<Longrightarrow> ew (d ! smallest_ix d i) \<le> ew (d ! (2 * i + 1))"
  "2 * i + 2 < length d \<Longrightarrow> ew (d ! smallest_ix d i) \<le> ew (d ! (2 * i + 2))"
  by (simp_all add: smallest_ix_def Let_def)

lemma smallest_cases:
  "smallest_ix d i = i \<or>
   ((smallest_ix d i = 2 * i + 1 \<or> smallest_ix d i = 2 * i + 2) \<and>
    smallest_ix d i < length d \<and> ew (d ! smallest_ix d i) < ew (d ! i))"
  by (simp add: smallest_ix_def Let_def)

lemma down_done:
  assumes dn: "down_ok d i" and s: "smallest_ix d i = i"
  shows "heap_ok d"
  unfolding heap_ok_def
proof (intro allI impI)
  fix j assume j: "0 < j \<and> j < length d"
  show "ew (d ! par j) \<le> ew (d ! j)"
  proof (cases "par j = i")
    case False
    with dn j show ?thesis by (simp add: down_ok_def)
  next
    case True
    with j have "j = 2 * i + 1 \<or> j = 2 * i + 2" using par_child [of j i] by simp
    with j True smallest_le(2,3) [of i d] s show ?thesis by auto
  qed
qed

lemma down_step:
  assumes dn: "down_ok d i" and ne: "smallest_ix d i \<noteq> i"
  shows "down_ok (swap d i (smallest_ix d i)) (smallest_ix d i)"
proof -
  define s where "s = smallest_ix d i"
  from smallest_cases [of d i] ne
  have sc: "s = 2 * i + 1 \<or> s = 2 * i + 2" and sl: "s < length d" and lt: "ew (d ! s) < ew (d ! i)"
    by (simp_all add: s_def)
  have s0: "0 < s" using sc by auto
  have ps: "par s = i" using par_child [OF s0, of i] sc by simp
  have i_s: "i < s" using sc by auto
  have il: "i < length d" using i_s sl by simp
  have nth: "swap d i s ! k = (if k = s then d ! i else if k = i then d ! s else d ! k)" for k
    using nth_swap [OF il sl] by simp
  have A: "ew (d ! par j) \<le> ew (d ! j)" if "0 < j" "j < length d" "par j \<noteq> i" for j
    using dn that by (simp add: down_ok_def)
  have B: "ew (d ! par i) \<le> ew (d ! j)" if "0 < j" "j < length d" "par j = i" "0 < i" for j
    using dn that by (simp add: down_ok_def)
  have C: "ew (d ! s) \<le> ew (d ! j)" if "0 < j" "j < length d" "par j = i" for j
  proof -
    from that have "j = 2 * i + 1 \<or> j = 2 * i + 2" using par_child [of j i] by simp
    with that smallest_le(2,3) [of i d] show ?thesis by (auto simp: s_def)
  qed
  have 1: "ew (swap d i s ! par j) \<le> ew (swap d i s ! j)"
    if j: "0 < j" "j < length d" "par j \<noteq> s" for j
  proof (cases "par j = i")
    case True
    then have ji: "j \<noteq> i" using par_less [OF j(1)] by simp
    show ?thesis
    proof (cases "j = s")
      case True
      then show ?thesis using lt ps i_s by (simp add: nth)
    next
      case False
      then show ?thesis using C [OF j(1,2) True] True ji i_s by (simp add: nth)
    qed
  next
    case False
    then have js: "j \<noteq> s" using ps by auto
    show ?thesis
    proof (cases "j = i")
      case True
      then have "ew (d ! par i) \<le> ew (d ! s)" using B [OF s0 sl ps] j(1) by simp
      moreover have "par i \<noteq> i" "par i \<noteq> s" using par_less [of i] j(1) True i_s by simp_all
      ultimately show ?thesis using True i_s by (simp add: nth)
    next
      case ji: False
      then show ?thesis using A [OF j(1,2) False] False j(3) js by (simp add: nth)
    qed
  qed
  have 2: "ew (swap d i s ! par s) \<le> ew (swap d i s ! j)"
    if j: "0 < j" "j < length d" "par j = s" for j
  proof -
    have "s < j" using par_less [OF j(1)] j(3) by simp
    then have "j \<noteq> s" "j \<noteq> i" using i_s by simp_all
    moreover have "ew (d ! s) \<le> ew (d ! j)" using A [OF j(1,2)] j(3) i_s by simp
    ultimately show ?thesis using ps i_s by (simp add: nth)
  qed
  show ?thesis unfolding down_ok_def s_def [symmetric] using 1 2 by simp
qed

lemma bubbleDown_ok:
  "down_ok d i \<Longrightarrow> heap_ok (bubbleDown d i) \<and> mset (bubbleDown d i) = mset d"
proof (induction d i rule: bubbleDown.induct)
  case (1 d i)
  show ?case
  proof (cases "smallest_ix d i = i")
    case True
    with down_done [OF "1.prems" True] show ?thesis
      by (subst (1 2) bubbleDown_step) simp
  next
    case False
    define s where "s = smallest_ix d i"
    from smallest_cases [of d i] False have sl: "s < length d" and i_s: "i < s"
      by (auto simp: s_def)
    have "down_ok (swap d i s) s" using down_step [OF "1.prems" False] by (simp add: s_def)
    moreover have seq: "s =
       (if 2 * i + 2 < length d \<and> ew (d ! (2 * i + 2)) <
             ew (d ! (if 2 * i + 1 < length d \<and> ew (d ! (2 * i + 1)) < ew (d ! i) then 2 * i + 1 else i))
        then 2 * i + 2
        else (if 2 * i + 1 < length d \<and> ew (d ! (2 * i + 1)) < ew (d ! i) then 2 * i + 1 else i))"
      unfolding s_def smallest_ix_def Let_def ..
    moreover have "s \<noteq> i" using False by (simp add: s_def)
    ultimately
    have "heap_ok (bubbleDown (swap d i s) s) \<and> mset (bubbleDown (swap d i s) s) = mset (swap d i s)"
      using "1.IH" [OF refl refl refl refl seq] by blast
    moreover have "mset (swap d i s) = mset d" using mset_swap_heap [of i d s] sl i_s by simp
    ultimately show ?thesis using False
      by (subst (1 2) bubbleDown_step) (simp add: s_def)
  qed
qed


lemma heap_min: "heap_ok d \<Longrightarrow> j < length d \<Longrightarrow> ew (d ! 0) \<le> ew (d ! j)"
proof (induction j rule: less_induct)
  case (less j)
  show ?case
  proof (cases "j = 0")
    case True
    then show ?thesis by simp
  next
    case False
    then have pj: "par j < j" using par_less by simp
    with less.prems have "ew (d ! 0) \<le> ew (d ! par j)" using less.IH [of "par j"] by simp
    moreover have "ew (d ! par j) \<le> ew (d ! j)" using less.prems False by (simp add: heap_ok_def)
    ultimately show ?thesis by simp
  qed
qed

lemma pop_empty: "pop [] = (None, [])"
  by (simp add: pop_def)

lemma pop_ok:
  assumes h: "heap_ok d" and ne: "d \<noteq> []"
  shows "\<exists>h'. pop d = (Some (d ! 0), h') \<and> heap_ok h' \<and> mset d = add_mset (d ! 0) (mset h') \<and>
           Suc (length h') = length d"
proof -
  from ne obtain x xs where d: "d = x # xs" by (cases d) auto
  show ?thesis
  proof (cases "xs = []")
    case True
    then show ?thesis by (simp add: d pop_def heap_ok_def)
  next
    case xs: False
    define q where "q = (butlast d)[0 := last d]"
    have q: "q = last xs # butlast xs" using xs by (simp add: q_def d)
    have lq: "Suc (length q) = length d" using xs by (simp add: q d)
    have "down_ok q 0"
      unfolding down_ok_def
    proof (intro conjI allI impI)
      fix j assume j: "0 < j \<and> j < length q \<and> par j \<noteq> 0"
      then have pj: "par j < j" using par_less [of j] by simp
      have "q ! j = d ! j" using j by (simp add: q_def nth_butlast)
      moreover have "q ! par j = d ! par j" using j pj by (simp add: q_def nth_butlast)
      moreover have "ew (d ! par j) \<le> ew (d ! j)" using h j lq by (simp add: heap_ok_def)
      ultimately show "ew (q ! par j) \<le> ew (q ! j)" by simp
    qed simp
    from bubbleDown_ok [OF this]
    have "heap_ok (bubbleDown q 0)" "mset (bubbleDown q 0) = mset q" by simp_all
    moreover have "mset q = mset xs"
      using xs append_butlast_last_id [of xs] mset_append [of "butlast xs" "[last xs]"]
      by (simp add: q)
    moreover have "pop d = (Some (d ! 0), bubbleDown q 0)"
      using xs by (simp add: pop_def Let_def q_def d)
    ultimately show ?thesis using lq by (simp add: d)
  qed
qed

lemma pop_min:
  assumes "heap_ok d" "x \<in> set d"
  shows "ew (d ! 0) \<le> ew x"
  using assms heap_min [of d] by (auto simp: in_set_conv_nth)


text \<open>
  Drivers for the claims about the heap: a sequence of \<^verbatim>\<open>push\<close> and \<^verbatim>\<open>pop\<close>
  calls on a new heap (\<open>run_ops\<close> gives the array afterwards), and popping until
  \<^verbatim>\<open>pop\<close> returns \<^verbatim>\<open>null\<close> (\<open>pop_all\<close> gives the items in the order popped).
\<close>

datatype heap_op = Push edge | Pop

fun apply_op :: "edge list \<Rightarrow> heap_op \<Rightarrow> edge list" where
  "apply_op d (Push x) = push d x"
| "apply_op d Pop = snd (pop d)"

definition run_ops :: "heap_op list \<Rightarrow> edge list" where
  "run_ops ops = foldl apply_op [] ops"

function pop_all :: "edge list \<Rightarrow> edge list" where
  "pop_all d = (case pop d of (None, d') \<Rightarrow> [] | (Some x, d') \<Rightarrow> x # pop_all d')"
  by pat_completeness auto
termination
proof (relation "measure length", goal_cases)
  case 1
  show ?case by simp
next
  case (2 d x d' y)
  then have "pop d = (Some y, d')" by simp
  moreover from this have "d \<noteq> []" by (auto simp: pop_def)
  ultimately have "length d' < length d" by (rule length_pop)
  then show ?case by simp
qed

declare pop_all.simps [simp del]

lemma heap_ok_Nil: "heap_ok []"
  by (simp add: heap_ok_def)

lemma apply_op_ok: "heap_ok d \<Longrightarrow> heap_ok (apply_op d op)"
proof (cases op)
  case (Push x)
  then show "heap_ok d \<Longrightarrow> heap_ok (apply_op d op)" using push_ok [of d x] by simp
next
  case Pop
  assume h: "heap_ok d"
  show "heap_ok (apply_op d op)"
  proof (cases "d = []")
    case True
    with Pop show ?thesis by (simp add: pop_empty heap_ok_Nil)
  next
    case False
    from pop_ok [OF h False] Pop show ?thesis by auto
  qed
qed

lemma foldl_apply_op_ok: "heap_ok d \<Longrightarrow> heap_ok (foldl apply_op d ops)"
  by (induction ops arbitrary: d) (simp_all add: apply_op_ok)

lemma foldl_push_ok:
  "heap_ok d \<Longrightarrow> heap_ok (foldl push d xs) \<and> mset (foldl push d xs) = mset d + mset xs"
proof (induction xs arbitrary: d)
  case Nil
  then show ?case by simp
next
  case (Cons x xs)
  from push_ok [OF Cons.prems, of x] Cons.IH [of "push d x"] show ?case by simp
qed

lemma pop_all_ok:
  "heap_ok d \<Longrightarrow> sorted (map ew (pop_all d)) \<and> mset (pop_all d) = mset d"
proof (induction d rule: pop_all.induct)
  case (1 d)
  show ?case
  proof (cases "d = []")
    case True
    then show ?thesis by (subst (1 2) pop_all.simps) (simp add: pop_empty)
  next
    case False
    from pop_ok [OF "1.prems" False] obtain h' where
      p: "pop d = (Some (d ! 0), h')" and h': "heap_ok h'"
      and m: "mset d = add_mset (d ! 0) (mset h')" by blast
    from "1.IH" [OF p [symmetric] refl h']
    have ih: "sorted (map ew (pop_all h'))" "mset (pop_all h') = mset h'" by simp_all
    have "\<forall>x\<in>set (pop_all h'). ew (d ! 0) \<le> ew x"
    proof
      fix x assume "x \<in> set (pop_all h')"
      then have "x \<in># mset h'" using ih(2) by (metis set_mset_mset)
      then have "x \<in> set d" using m by (metis set_mset_mset union_single_eq_member insert_iff set_mset_add_mset_insert)
      then show "ew (d ! 0) \<le> ew x" using pop_min [OF "1.prems"] by simp
    qed
    then show ?thesis using ih m p
      by (subst (1 2) pop_all.simps) simp
  qed
qed

text \<open>
  Claim C5. Whatever items are pushed onto a new heap, popping until \<^verbatim>\<open>pop\<close>
  returns \<^verbatim>\<open>null\<close> gives the weights in non-decreasing order (and gives back exactly
  the items that were pushed); \<^verbatim>\<open>pop\<close> on an empty heap returns \<^verbatim>\<open>null\<close> and
  leaves the heap empty.
\<close>

theorem heap_pops_sorted:
  "sorted (map ew (pop_all (foldl push [] items))) \<and>
   mset (pop_all (foldl push [] items)) = mset items \<and>
   pop [] = (None, [])"
  using foldl_push_ok [OF heap_ok_Nil, of items]
    pop_all_ok [of "foldl push [] items"] pop_empty by simp

text \<open>
  Claim C9. After any sequence of \<^verbatim>\<open>push\<close> and \<^verbatim>\<open>pop\<close> calls on a new heap,
  every cell \<open>j > 0\<close> of the array weighs at least as much as its parent
  \<open>(j - 1) div 2\<close>, and the cell 0 holds an item of minimum weight.
\<close>

theorem heap_order_invariant:
  "heap_ok (run_ops ops) \<and> (\<forall>x\<in>set (run_ops ops). ew (run_ops ops ! 0) \<le> ew x)"
  unfolding run_ops_def
  using foldl_apply_op_ok [OF heap_ok_Nil, of ops] pop_min [of "foldl apply_op [] ops"] by simp

text \<open>The invariant after three pushes and a pop.\<close>

theorem heap_order_invariant_witness:
  "run_ops [Push (Edge 0 1 5), Push (Edge 1 2 3), Push (Edge 0 2 4), Pop] = [Edge 0 2 4, Edge 0 1 5] \<and>
   heap_ok [Edge 0 2 4, Edge 0 1 5] \<and>
   Edge 0 1 5 \<in> set [Edge 0 2 4, Edge 0 1 5] \<and>
   ew ([Edge 0 2 4, Edge 0 1 5] ! 0) \<le> ew (Edge 0 1 5) \<and>
   0 < (1::nat) \<and> 1 < length [Edge 0 2 4, Edge 0 1 5] \<and>
   ew ([Edge 0 2 4, Edge 0 1 5] ! par 1) \<le> ew ([Edge 0 2 4, Edge 0 1 5] ! 1)"
proof -
  have r: "run_ops [Push (Edge 0 1 5), Push (Edge 1 2 3), Push (Edge 0 2 4), Pop] = [Edge 0 2 4, Edge 0 1 5]"
    by code_simp
  from heap_order_invariant [of "[Push (Edge 0 1 5), Push (Edge 1 2 3), Push (Edge 0 2 4), Pop]"]
  have "heap_ok [Edge 0 2 4, Edge 0 1 5]" unfolding r by simp
  then show ?thesis using r by (simp add: par_def)
qed


section \<open>Graphs given by edge lists\<close>

text \<open>
  The notions the specification uses. An edge list is a multigraph on the vertices
  \<open>0, ..., n - 1\<close> (parallel edges are allowed). \<open>joins e a b\<close>: the undirected edge
  \<open>e\<close> has the end points \<open>a\<close> and \<open>b\<close>. \<open>linked es a b\<close>: a walk along edges of
  \<open>es\<close> leads from \<open>a\<close> to \<open>b\<close>. \<open>spans n es\<close>: \<open>es\<close> connects all \<open>n\<close>
  vertices. \<open>acyclic_edges es\<close>: \<open>es\<close> has no cycle, that is, no edge of \<open>es\<close> closes
  a walk along the other edges (taking one occurrence of the edge away leaves its end
  points unconnected; a second copy of an edge and a self-loop are cycles).
  \<open>weight es\<close>: the total weight. \<open>valid_edges n es\<close>: what the input layer
  guarantees (end points below \<open>n\<close>, no self-loop; weights are not negative by their
  type). \<open>edges_of T E\<close>: every edge of \<open>T\<close> is an edge of \<open>E\<close>, in either direction
  (\<open>same_edge\<close>: same end points, same weight).
\<close>

definition joins :: "edge \<Rightarrow> nat \<Rightarrow> nat \<Rightarrow> bool" where
  "joins e a b \<longleftrightarrow> (eu e = a \<and> ev e = b) \<or> (eu e = b \<and> ev e = a)"

definition adjacent :: "edge list \<Rightarrow> (nat \<times> nat) set" where
  "adjacent es = {(a, b). \<exists>e\<in>set es. joins e a b}"

definition linked :: "edge list \<Rightarrow> nat \<Rightarrow> nat \<Rightarrow> bool" where
  "linked es a b \<longleftrightarrow> (a, b) \<in> (adjacent es)\<^sup>*"

definition spans :: "nat \<Rightarrow> edge list \<Rightarrow> bool" where
  "spans n es \<longleftrightarrow> (\<forall>a<n. \<forall>b<n. linked es a b)"

definition acyclic_edges :: "edge list \<Rightarrow> bool" where
  "acyclic_edges es \<longleftrightarrow> (\<forall>e\<in>set es. \<not> linked (remove1 e es) (eu e) (ev e))"

definition weight :: "edge list \<Rightarrow> nat" where
  "weight es = sum_list (map ew es)"

definition valid_edges :: "nat \<Rightarrow> edge list \<Rightarrow> bool" where
  "valid_edges n es \<longleftrightarrow> (\<forall>e\<in>set es. eu e < n \<and> ev e < n \<and> eu e \<noteq> ev e)"

definition same_edge :: "edge \<Rightarrow> edge \<Rightarrow> bool" where
  "same_edge e f \<longleftrightarrow> ew e = ew f \<and> joins f (eu e) (ev e)"

definition edges_of :: "edge list \<Rightarrow> edge list \<Rightarrow> bool" where
  "edges_of T E \<longleftrightarrow> (\<forall>t\<in>set T. \<exists>e\<in>set E. same_edge t e)"

lemma joins_sym: "joins e a b \<Longrightarrow> joins e b a"
  by (auto simp: joins_def)

lemma joins_self: "joins e (eu e) (ev e)"
  by (simp add: joins_def)

lemma adjacent_sym: "(a, b) \<in> adjacent es \<Longrightarrow> (b, a) \<in> adjacent es"
  by (auto simp: adjacent_def joins_def)

lemma linked_refl [simp]: "linked es a a"
  by (simp add: linked_def)

lemma linked_trans: "linked es a b \<Longrightarrow> linked es b c \<Longrightarrow> linked es a c"
  unfolding linked_def by (rule rtrancl_trans)

lemma linked_sym: "linked es a b \<Longrightarrow> linked es b a"
  unfolding linked_def
proof (induction rule: rtrancl_induct)
  case base
  show ?case by simp
next
  case (step y z)
  from step.hyps(2) have "(z, y) \<in> adjacent es" by (rule adjacent_sym)
  then show ?case using step.IH by (rule converse_rtrancl_into_rtrancl)
qed

lemma linked_joins: "e \<in> set es \<Longrightarrow> joins e a b \<Longrightarrow> linked es a b"
  unfolding linked_def adjacent_def by (rule r_into_rtrancl) blast

lemma linked_edge: "e \<in> set es \<Longrightarrow> linked es (eu e) (ev e)"
  by (rule linked_joins [OF _ joins_self])

lemma linked_subst:
  assumes "\<And>e. e \<in> set es \<Longrightarrow> linked es' (eu e) (ev e)"
  shows "linked es a b \<Longrightarrow> linked es' a b"
  unfolding linked_def [of es]
proof (induction rule: rtrancl_induct)
  case base
  show ?case by simp
next
  case (step y z)
  from step.hyps(2) obtain e where e: "e \<in> set es" "joins e y z" by (auto simp: adjacent_def)
  from assms [OF e(1)] e(2) have "linked es' y z"
    using linked_sym [of es' "eu e" "ev e"] by (auto simp: joins_def)
  with step.IH show ?case by (rule linked_trans)
qed

lemma linked_mono: "set es \<subseteq> set es' \<Longrightarrow> linked es a b \<Longrightarrow> linked es' a b"
  by (rule linked_subst [of es es']) (auto intro: linked_edge)

lemma linked_set_cong: "set es = set es' \<Longrightarrow> linked es = linked es'"
  by (simp add: linked_def adjacent_def fun_eq_iff)

lemma linked_Nil [simp]: "linked [] a b \<longleftrightarrow> a = b"
  by (simp add: linked_def adjacent_def)

lemma linked_Cons:
  "linked (e # es) a b \<longleftrightarrow>
     linked es a b \<or> (linked es a (eu e) \<and> linked es (ev e) b) \<or> (linked es a (ev e) \<and> linked es (eu e) b)"
  (is "?L \<longleftrightarrow> ?R a b")
proof
  assume ?L
  then show "?R a b"
    unfolding linked_def [of "e # es"]
  proof (induction rule: rtrancl_induct)
    case base
    show ?case by simp
  next
    case (step y z)
    from step.hyps(2) obtain f where f: "f \<in> set (e # es)" "joins f y z" by (auto simp: adjacent_def)
    show ?case
    proof (cases "f = e")
      case False
      with f have yz: "linked es y z" using linked_joins [of f es y z] by simp
      from step.IH show ?thesis using linked_trans [OF _ yz] by blast
    next
      case True
      with f(2) have "(y = eu e \<and> z = ev e) \<or> (y = ev e \<and> z = eu e)" by (auto simp: joins_def)
      with step.IH show ?thesis by auto
    qed
  qed
next
  have e: "linked (e # es) (eu e) (ev e)" by (rule linked_edge) simp
  have m: "linked es x y \<Longrightarrow> linked (e # es) x y" for x y by (rule linked_mono [of es]) auto
  assume "?R a b"
  then show ?L
    using m e linked_trans [of "e # es"] linked_sym [of "e # es"] by blast
qed

lemma linked_snoc: "linked (es @ [e]) = linked (e # es)"
  by (rule linked_set_cong) auto

lemma linked_redundant: "linked es (eu e) (ev e) \<Longrightarrow> linked (e # es) a b \<longleftrightarrow> linked es a b"
  unfolding linked_Cons using linked_trans [of es] linked_sym [of es] by blast

text \<open>A walk that leaves a set of vertices: its last edge out of the set.\<close>

lemma crossing_edge:
  assumes "linked T a b" "a \<in> A" "b \<notin> A"
  shows "\<exists>e\<in>set T. \<exists>x y. joins e x y \<and> x \<in> A \<and> y \<notin> A \<and>
           linked (filter (\<lambda>f. eu f \<notin> A \<and> ev f \<notin> A) T) y b"
proof -
  define out where "out = filter (\<lambda>f. eu f \<notin> A \<and> ev f \<notin> A) T"
  have "(a \<notin> A \<and> linked out a b) \<or>
        (\<exists>e\<in>set T. \<exists>x y. joins e x y \<and> x \<in> A \<and> y \<notin> A \<and> linked out y b)"
    using assms(1) unfolding linked_def [of T]
  proof (induction rule: converse_rtrancl_induct)
    case base
    from assms(3) show ?case by simp
  next
    case (step a z)
    from step.hyps(1) obtain e where e: "e \<in> set T" "joins e a z" by (auto simp: adjacent_def)
    from step.IH show ?case
    proof
      assume z: "z \<notin> A \<and> linked out z b"
      show ?thesis
      proof (cases "a \<in> A")
        case True
        with e z show ?thesis by blast
      next
        case False
        with e z have "e \<in> set out" by (auto simp: out_def joins_def)
        then have "linked out a z" using e(2) by (rule linked_joins)
        with z False show ?thesis using linked_trans by blast
      qed
    next
      assume "\<exists>e\<in>set T. \<exists>x y. joins e x y \<and> x \<in> A \<and> y \<notin> A \<and> linked out y b"
      then show ?thesis ..
    qed
  qed
  with assms(2) show ?thesis unfolding out_def by blast
qed


lemma weight_Cons [simp]: "weight (e # es) = ew e + weight es"
  by (simp add: weight_def)

lemma weight_Nil [simp]: "weight [] = 0"
  by (simp add: weight_def)

lemma weight_append [simp]: "weight (es @ fs) = weight es + weight fs"
  by (simp add: weight_def)

lemma weight_remove1: "e \<in> set es \<Longrightarrow> weight es = ew e + weight (remove1 e es)"
  unfolding weight_def by (rule sum_list_map_remove1)

lemma weight_mset: "mset es = mset fs \<Longrightarrow> weight es = weight fs"
  unfolding weight_def by (metis mset_map sum_mset_sum_list)

text \<open>
  \<open>js_sum m\<close> is the value of \<^verbatim>\<open>total\<close> after the weights of \<open>m\<close> have been added
  to 0 one by one, in the order of the list. Up to \<open>2^53\<close> nothing is rounded.
\<close>

definition js_sum :: "edge list \<Rightarrow> number" where
  "js_sum m = foldl (\<lambda>t e. js_add t (ew e)) (Finite 0) m"

lemma js_sum_Nil [simp]: "js_sum [] = Finite 0"
  by (simp add: js_sum_def)

lemma js_sum_snoc [simp]: "js_sum (m @ [e]) = js_add (js_sum m) (ew e)"
  by (simp add: js_sum_def)

lemma bit_length_le: "bit_length x \<le> k \<longleftrightarrow> x < 2 ^ k"
proof (induction k arbitrary: x)
  case 0
  show ?case by (subst bit_length.simps) simp
next
  case (Suc k)
  have "bit_length x \<le> Suc k \<longleftrightarrow> x = 0 \<or> bit_length (x div 2) \<le> k"
    by (subst bit_length.simps) simp
  also have "\<dots> \<longleftrightarrow> x = 0 \<or> x div 2 < 2 ^ k" by (simp only: Suc.IH)
  also have "\<dots> \<longleftrightarrow> x < 2 ^ Suc k" by auto
  finally show ?case .
qed

lemma round_double_exact:
  assumes "x \<le> 2 ^ 53"
  shows "round_double x = Finite x"
proof (cases "bit_length x \<le> 53")
  case True
  then show ?thesis by (simp add: round_double_def)
next
  case False
  then have "\<not> x < 2 ^ 53" by (simp add: bit_length_le)
  with assms have x: "x = 2 ^ 53" by simp
  have "bit_length x \<le> 54" unfolding bit_length_le by (simp add: x)
  with False have b: "bit_length x = 54" by simp
  show ?thesis using False by (simp add: round_double_def b) (simp add: x)
qed

lemma round_double_overflow:
  assumes "2 ^ 1024 \<le> x"
  shows "round_double x = Infinity"
proof -
  define L where "L = bit_length x"
  define e where "e = L - 53"
  define B :: nat where "B = 2 ^ 1024"
  have "\<not> L \<le> 1024" unfolding L_def bit_length_le using assms by simp
  then have L: "1024 < L" by simp
  have "\<not> L \<le> L - 1" using L by simp
  then have lo: "2 ^ (L - 1) \<le> x" unfolding L_def bit_length_le by simp
  have "52 + e = L - 1" using L by (simp add: e_def)
  then have split: "(2::nat) ^ (L - 1) = 2 ^ 52 * 2 ^ e" by (simp only: power_add [symmetric])
  have "(2::nat) ^ 1024 \<le> 2 ^ (L - 1)" using L by (intro power_increasing) simp_all
  then have big: "B \<le> 2 ^ 52 * 2 ^ e" by (simp only: split B_def)
  have "(2 ^ 52 * 2 ^ e) div 2 ^ e \<le> x div 2 ^ e" using lo by (simp only: split div_le_mono)
  then have q: "(2::nat) ^ 52 \<le> x div 2 ^ e" by simp
  then have "2 ^ 52 * 2 ^ e \<le> (x div 2 ^ e) * 2 ^ e" by (rule mult_le_mono1)
  with big have 1: "B \<le> (x div 2 ^ e) * 2 ^ e" by (rule order_trans)
  then have 2: "B \<le> (x div 2 ^ e + 1) * 2 ^ e"
    by (rule order_trans) (simp add: mult_le_mono1)
  have "\<not> bit_length x \<le> 53" using L by (simp add: L_def)
  then show ?thesis
    using 1 2 unfolding round_double_def Let_def B_def [symmetric] L_def [symmetric] e_def [symmetric]
    by (simp only: if_False if_True split: if_splits) simp
qed

lemma js_sum_exact: "weight m \<le> 2 ^ 53 \<Longrightarrow> js_sum m = Finite (weight m)"
proof (induction m rule: rev_induct)
  case Nil
  show ?case by simp
next
  case (snoc e m)
  then have "js_sum m = Finite (weight m)" by simp
  with snoc.prems show ?case by (simp add: round_double_exact)
qed

lemma weight_mono: "mset es \<subseteq># mset fs \<Longrightarrow> weight es \<le> weight fs"
proof -
  assume "mset es \<subseteq># mset fs"
  then obtain M where M: "mset fs = mset es + M" by (auto simp: mset_subset_eq_exists_conv)
  have "weight fs = sum_mset (image_mset ew (mset fs))"
    unfolding weight_def by (metis mset_map sum_mset_sum_list)
  also have "\<dots> = sum_mset (image_mset ew (mset es)) + sum_mset (image_mset ew M)"
    by (simp add: M)
  also have "sum_mset (image_mset ew (mset es)) = weight es"
    unfolding weight_def by (metis mset_map sum_mset_sum_list)
  finally show ?thesis by simp
qed

lemma mset_subset_remove:
  assumes "mset F \<subseteq># mset T" "e \<notin> set F"
  shows "mset F \<subseteq># mset (remove1 e T)"
proof (rule mset_subset_eqI)
  fix a
  from assms(1) have le: "count (mset F) a \<le> count (mset T) a" by (rule mset_subset_eq_count)
  show "count (mset F) a \<le> count (mset (remove1 e T)) a"
  proof (cases "a = e")
    case True
    with assms(2) have "count (mset F) a = 0" by (simp add: count_eq_zero_iff)
    then show ?thesis by (simp only: le0)
  next
    case False
    with le show ?thesis by simp
  qed
qed

text \<open>
  The exchange step of both algorithms. \<open>F\<close> is the forest built so far, inside a
  spanning edge list \<open>T\<close>; \<open>A\<close> is a set of vertices that \<open>F\<close> links to \<open>u\<close> and that
  no edge of \<open>F\<close> leaves; \<open>e\<close> joins \<open>u\<close> inside \<open>A\<close> to \<open>v\<close> outside and is not heavier
  than any edge of \<open>T\<close> that leaves \<open>A\<close>. Then \<open>e\<close> can replace an edge of \<open>T\<close>.
\<close>

lemma exchange:
  assumes sp: "spans n T" and uv: "u < n" "v < n" "joins e u v" and A: "u \<in> A" "v \<notin> A"
    and FA: "\<And>x. x \<in> A \<Longrightarrow> linked F x u"
    and Fin: "\<And>f. f \<in> set F \<Longrightarrow> eu f \<in> A \<longleftrightarrow> ev f \<in> A"
    and sub: "mset F \<subseteq># mset T"
    and minw: "\<And>f. f \<in> set T \<Longrightarrow> (eu f \<in> A) \<noteq> (ev f \<in> A) \<Longrightarrow> ew e \<le> ew f"
  shows "\<exists>T'. spans n T' \<and> set T' \<subseteq> insert e (set T) \<and> weight T' \<le> weight T \<and>
           mset (F @ [e]) \<subseteq># mset T'"
proof -
  from sp uv have "linked T u v" by (simp add: spans_def)
  from crossing_edge [OF this A] obtain e' x y where
    e': "e' \<in> set T" "joins e' x y" "x \<in> A" "y \<notin> A"
    and yv: "linked (filter (\<lambda>f. eu f \<notin> A \<and> ev f \<notin> A) T) y v" by blast
  define T' where "T' = e # remove1 e' T"
  from e'(2,3,4) have cross: "(eu e' \<in> A) \<noteq> (ev e' \<in> A)" by (auto simp: joins_def)
  with Fin have notF: "e' \<notin> set F" by blast
  have subF: "mset F \<subseteq># mset (remove1 e' T)" using sub notF by (rule mset_subset_remove)
  have "set_mset (mset F) \<subseteq> set_mset (mset (remove1 e' T))" using subF by (rule set_mset_mono)
  then have setF: "set F \<subseteq> set T'" unfolding set_mset_mset T'_def by auto
  have w: "weight T' \<le> weight T"
    using weight_remove1 [OF e'(1)] minw [OF e'(1) cross] by (simp add: T'_def)
  have xu: "linked T' x u" using FA [OF e'(3)] setF by (rule_tac linked_mono)
  have uv': "linked T' u v" by (rule linked_joins [OF _ uv(3)]) (simp add: T'_def)
  have "set (filter (\<lambda>f. eu f \<notin> A \<and> ev f \<notin> A) T) \<subseteq> set T'"
  proof
    fix f assume f: "f \<in> set (filter (\<lambda>f. eu f \<notin> A \<and> ev f \<notin> A) T)"
    with cross have "f \<noteq> e'" by auto
    with f show "f \<in> set T'" by (simp add: T'_def)
  qed
  from linked_mono [OF this yv] have "linked T' v y" by (rule linked_sym)
  with xu uv' have xy: "linked T' x y" using linked_trans by blast
  have "linked T' (eu f) (ev f)" if "f \<in> set T" for f
  proof (cases "f = e'")
    case True
    with e'(2) xy show ?thesis using linked_sym [of T' x y] by (auto simp: joins_def)
  next
    case False
    with that have "f \<in> set T'" by (simp add: T'_def)
    then show ?thesis by (rule linked_edge)
  qed
  then have "linked T a b \<Longrightarrow> linked T' a b" for a b by (rule linked_subst)
  with sp have "spans n T'" by (simp add: spans_def)
  moreover have "set T' \<subseteq> insert e (set T)" using set_remove1_subset [of e' T] by (auto simp: T'_def)
  moreover have "mset (F @ [e]) \<subseteq># mset T'" using subF by (simp add: T'_def)
  ultimately show ?thesis using w by blast
qed

lemma acyclic_Nil [simp]: "acyclic_edges []"
  by (simp add: acyclic_edges_def)

lemma acyclic_add:
  assumes ac: "acyclic_edges K" and nl: "\<not> linked K (eu e) (ev e)"
  shows "acyclic_edges (K @ [e])"
  unfolding acyclic_edges_def
proof
  fix f assume f: "f \<in> set (K @ [e])"
  have eK: "e \<notin> set K" using nl linked_edge by blast
  show "\<not> linked (remove1 f (K @ [e])) (eu f) (ev f)"
  proof (cases "f = e")
    case True
    with eK nl show ?thesis by (simp add: remove1_append)
  next
    case False
    with f have fK: "f \<in> set K" by simp
    define K' where "K' = remove1 f K"
    have sub: "set K' \<subseteq> set K" unfolding K'_def by (rule set_remove1_subset)
    have m: "linked K' x y \<Longrightarrow> linked K x y" for x y
      by (rule linked_mono [OF sub])
    have nf: "\<not> linked K' (eu f) (ev f)" using ac fK by (simp add: acyclic_edges_def K'_def)
    have fl: "linked K (eu f) (ev f)" using fK by (rule linked_edge)
    have "\<not> linked (e # K') (eu f) (ev f)"
    proof
      assume "linked (e # K') (eu f) (ev f)"
      with nf have "(linked K' (eu f) (eu e) \<and> linked K' (ev e) (ev f)) \<or>
                    (linked K' (eu f) (ev e) \<and> linked K' (eu e) (ev f))"
        by (simp add: linked_Cons)
      then have "(linked K (eu f) (eu e) \<and> linked K (ev e) (ev f)) \<or>
                 (linked K (eu f) (ev e) \<and> linked K (eu e) (ev f))"
        using m by blast
      with fl have "linked K (eu e) (ev e)"
        using linked_trans [of K] linked_sym [of K] by blast
      with nl show False ..
    qed
    moreover have "remove1 f (K @ [e]) = K' @ [e]" using fK by (simp add: remove1_append K'_def)
    ultimately show ?thesis by (simp add: linked_snoc)
  qed
qed

section \<open>Kruskal's algorithm\<close>

text \<open>
  \<open>promising n E m\<close>: the selection \<open>m\<close> loses nothing: whatever spanning edge list
  \<open>T\<close> of the graph \<open>E\<close> one compares with, there is a spanning edge list that is not
  heavier than \<open>T\<close> and contains \<open>m\<close>.
\<close>

definition promising :: "nat \<Rightarrow> edge list \<Rightarrow> edge list \<Rightarrow> bool" where
  "promising n E m \<longleftrightarrow>
     (\<forall>T. edges_of T E \<and> spans n T \<longrightarrow>
        (\<exists>T'. edges_of T' E \<and> spans n T' \<and> weight T' \<le> weight T \<and> mset m \<subseteq># mset T'))"

lemma promising_Nil: "promising n E []"
  unfolding promising_def by auto

lemma promising_min:
  assumes "promising n E m" "edges_of T E" "spans n T"
  shows "weight m \<le> weight T"
proof -
  from assms obtain T' where "weight T' \<le> weight T" "mset m \<subseteq># mset T'"
    unfolding promising_def by blast
  with weight_mono [of m T'] show ?thesis by simp
qed

lemma same_edge_refl: "same_edge e e"
  by (simp add: same_edge_def joins_def)

lemma edges_of_subset: "set T \<subseteq> set E \<Longrightarrow> edges_of T E"
  unfolding edges_of_def using same_edge_refl by blast

lemma promising_add:
  assumes pr: "promising n E m" and uv: "u < n" "v < n" "joins e u v"
    and eE: "\<exists>g\<in>set E. same_edge e g"
    and A: "u \<in> A" "v \<notin> A"
    and FA: "\<And>x. x \<in> A \<Longrightarrow> linked m x u"
    and Fin: "\<And>f. f \<in> set m \<Longrightarrow> eu f \<in> A \<longleftrightarrow> ev f \<in> A"
    and minw: "\<And>g. g \<in> set E \<Longrightarrow> (eu g \<in> A) \<noteq> (ev g \<in> A) \<Longrightarrow> ew e \<le> ew g"
  shows "promising n E (m @ [e])"
  unfolding promising_def
proof (intro allI impI)
  fix T assume "edges_of T E \<and> spans n T"
  with pr obtain T1 where T1: "edges_of T1 E" "spans n T1" "weight T1 \<le> weight T"
    "mset m \<subseteq># mset T1" unfolding promising_def by blast
  have mw: "ew e \<le> ew f" if f: "f \<in> set T1" "(eu f \<in> A) \<noteq> (ev f \<in> A)" for f
  proof -
    from T1(1) f(1) obtain g where g: "g \<in> set E" "same_edge f g" unfolding edges_of_def by blast
    from g(2) f(2) have "(eu g \<in> A) \<noteq> (ev g \<in> A)" by (auto simp: same_edge_def joins_def)
    from minw [OF g(1) this] g(2) show ?thesis by (simp add: same_edge_def)
  qed
  from exchange [OF T1(2) uv A FA Fin T1(4) mw]
  obtain T' where T': "spans n T'" "set T' \<subseteq> insert e (set T1)" "weight T' \<le> weight T1"
    "mset (m @ [e]) \<subseteq># mset T'" by blast
  have "edges_of T' E" unfolding edges_of_def
  proof
    fix t assume "t \<in> set T'"
    with T'(2) have "t = e \<or> t \<in> set T1" by auto
    with eE T1(1) show "\<exists>g\<in>set E. same_edge t g" unfolding edges_of_def by blast
  qed
  with T' T1(3) show "\<exists>T'. edges_of T' E \<and> spans n T' \<and> weight T' \<le> weight T \<and>
     mset (m @ [e]) \<subseteq># mset T'" by (intro exI [of _ T']) simp
qed

lemma mset_subset_add: "M \<subseteq># N \<Longrightarrow> M \<subseteq># add_mset e N"
  by (rule mset_subset_eqI) (simp add: mset_subset_eq_count le_SucI)

text \<open>
  The invariant of the loop of \<^verbatim>\<open>kruskalMST\<close>. \<open>E\<close> is the sorted edge list,
  \<open>ps\<close> the edges visited so far, \<open>m\<close> and \<open>t\<close> are \<^verbatim>\<open>mst\<close> and
  \<^verbatim>\<open>total\<close>: \<open>t\<close> is what adding up the weights of \<open>m\<close> has given; the sets of the union-find structure are the components of \<open>m\<close>
  and one more, the set of \<^verbatim>\<open>undefined\<close>, which holds no vertex and every key that
  is not a vertex; there is one root for each set; every visited edge has its end points
  linked by \<open>m\<close>, \<open>m\<close> has no cycle and is promising.
\<close>

definition kruskal_inv ::
  "nat \<Rightarrow> edge list \<Rightarrow> edge list \<Rightarrow> disjoint_set \<Rightarrow> edge list \<Rightarrow> number \<Rightarrow> bool" where
  "kruskal_inv n E ps ds m t \<longleftrightarrow>
     uf_ok (aget (parent ds)) \<and>
     (\<forall>a<n. \<forall>b<n. same_set (aget (parent ds)) (Num a) (Num b) \<longleftrightarrow> linked m a b) \<and>
     (\<forall>a<n. \<not> same_set (aget (parent ds)) (Num a) Undefined) \<and>
     (\<forall>k. same_set (aget (parent ds)) k Undefined \<or>
          (\<exists>a<n. same_set (aget (parent ds)) k (Num a))) \<and>
     card (roots (aget (parent ds))) + length m = Suc n \<and>
     t = js_sum m \<and> mset m \<subseteq># mset ps \<and>
     (\<forall>e\<in>set ps. linked m (eu e) (ev e)) \<and>
     acyclic_edges m \<and> promising n E m"

lemma fresh_apart: "a < n \<Longrightarrow> \<not> same_set (aget (parent (DisjointSet n))) (Num a) Undefined"
  using same_set_roots [OF fresh_root_of [of a n] fresh_root_undefined [of n]] by simp

lemma fresh_cover:
  "same_set (aget (parent (DisjointSet n))) k Undefined \<or>
   (\<exists>a<n. same_set (aget (parent (DisjointSet n))) k (Num a))"
proof (cases k)
  case Undefined
  with fresh_root_undefined [of n] show ?thesis unfolding same_set_def by blast
next
  case (Num x)
  show ?thesis
  proof (cases "x < n")
    case True
    with fresh_root_of [of x n] Num show ?thesis unfolding same_set_def by blast
  next
    case False
    with fresh_root_outside [of x n] fresh_root_undefined [of n] Num show ?thesis
      unfolding same_set_def by blast
  qed
qed

lemma kruskal_inv_init: "kruskal_inv n E [] (DisjointSet n) [] (Finite 0)"
  unfolding kruskal_inv_def
  using fresh_cover [of n]
  by (simp add: fresh_uf_ok fresh_same_set fresh_apart fresh_card_roots promising_Nil)

lemma sorted_later:
  assumes "sorted (map ew (ps @ e # es))" "g \<in> set (e # es)"
  shows "ew e \<le> ew g"
  using assms by (auto simp: sorted_append)

lemma kruskal_step:
  assumes inv: "kruskal_inv n E ps ds m t" and E: "ps @ e # es = E"
    and so: "sorted (map ew E)" and va: "valid_edges n E"
  shows "\<exists>ds'. union_ds ds (Num (eu e)) (Num (ev e)) = Some (ds', \<not> linked m (eu e) (ev e)) \<and>
           (if linked m (eu e) (ev e) then kruskal_inv n E (ps @ [e]) ds' m t
            else kruskal_inv n E (ps @ [e]) ds' (m @ [e]) (js_add t (ew e)))"
proof -
  define a where "a = eu e"
  define b where "b = ev e"
  have eE: "e \<in> set E" using E by auto
  with va have ab: "a < n" "b < n" by (simp_all add: valid_edges_def a_def b_def)
  define pm where "pm = aget (parent ds)"
  from inv have ok: "uf_ok pm"
    and rel: "\<And>x y. x < n \<Longrightarrow> y < n \<Longrightarrow> same_set pm (Num x) (Num y) \<longleftrightarrow> linked m x y"
    and apart: "\<And>x. x < n \<Longrightarrow> \<not> same_set pm (Num x) Undefined"
    and cover: "\<And>k. same_set pm k Undefined \<or> (\<exists>x<n. same_set pm k (Num x))"
    and cnt: "card (roots pm) + length m = Suc n"
    and t: "t = js_sum m" and sub: "mset m \<subseteq># mset ps"
    and seen: "\<And>g. g \<in> set ps \<Longrightarrow> linked m (eu g) (ev g)"
    and ac: "acyclic_edges m" and pr: "promising n E m"
    unfolding kruskal_inv_def pm_def by simp_all
  from union_ds_correct [of ds "Num a" "Num b"] ok obtain ds' where
    un: "union_ds ds (Num a) (Num b) = Some (ds', \<not> same_set pm (Num a) (Num b))"
    and ok': "uf_ok (aget (parent ds'))"
    and rel': "\<And>x y. same_set (aget (parent ds')) x y \<longleftrightarrow>
                same_set pm x y \<or>
                (same_set pm x (Num a) \<and> same_set pm (Num b) y) \<or>
                (same_set pm x (Num b) \<and> same_set pm (Num a) y)"
    and cnt': "card (roots (aget (parent ds'))) + (if same_set pm (Num a) (Num b) then 0 else 1) =
             card (roots pm)"
    unfolding pm_def by blast
  define pm' where "pm' = aget (parent ds')"
  note ok' = ok' [folded pm'_def] and rel' = rel' [folded pm'_def] and cnt' = cnt' [folded pm'_def]
  have sab: "same_set pm (Num a) (Num b) \<longleftrightarrow> linked m a b" using rel ab by simp
  have rel'': "same_set pm' (Num x) (Num y) \<longleftrightarrow> linked (e # m) x y" if "x < n" "y < n" for x y
    using rel' [of "Num x" "Num y"] rel that ab by (simp add: linked_Cons a_def b_def)
  have apart': "\<not> same_set pm' (Num x) Undefined" if "x < n" for x
    using rel' [of "Num x" Undefined] apart that ab by simp
  have cover': "same_set pm' k Undefined \<or> (\<exists>x<n. same_set pm' k (Num x))" for k
    using cover [of k] rel' [of k] by blast
  have un': "union_ds ds (Num (eu e)) (Num (ev e)) = Some (ds', \<not> linked m (eu e) (ev e))"
    using un sab by (simp add: a_def b_def)
  show ?thesis
  proof (cases "linked m a b")
    case True
    have "same_set pm' (Num x) (Num y) \<longleftrightarrow> linked m x y" if "x < n" "y < n" for x y
      using rel'' [OF that] linked_redundant [of m e] True by (simp add: a_def b_def)
    moreover have "card (roots pm') + length m = Suc n" using cnt cnt' sab True by simp
    moreover have "mset m \<subseteq># mset (ps @ [e])" using sub by (simp add: mset_subset_add)
    moreover have "\<forall>f\<in>set (ps @ [e]). linked m (eu f) (ev f)" using seen True by (auto simp: a_def b_def)
    ultimately have "kruskal_inv n E (ps @ [e]) ds' m t"
      unfolding kruskal_inv_def pm'_def [symmetric] using ok' apart' cover' t ac pr by simp
    with un' True show ?thesis by (auto simp: a_def b_def)
  next
    case False
    define A where "A = {z. linked m a z}"
    have "same_set pm' (Num x) (Num y) \<longleftrightarrow> linked (m @ [e]) x y" if "x < n" "y < n" for x y
      using rel'' [OF that] by (simp add: linked_snoc)
    moreover have "card (roots pm') + length (m @ [e]) = Suc n" using cnt cnt' sab False by simp
    moreover have "mset (m @ [e]) \<subseteq># mset (ps @ [e])" using sub by simp
    moreover have "\<forall>f\<in>set (ps @ [e]). linked (m @ [e]) (eu f) (ev f)"
    proof
      fix f assume "f \<in> set (ps @ [e])"
      then have "f = e \<or> f \<in> set ps" by auto
      then show "linked (m @ [e]) (eu f) (ev f)"
      proof
        assume "f = e"
        then show ?thesis using linked_edge [of e "m @ [e]"] by simp
      next
        assume "f \<in> set ps"
        from seen [OF this] show ?thesis by (rule linked_mono [rotated]) auto
      qed
    qed
    moreover have "acyclic_edges (m @ [e])" using ac False by (intro acyclic_add) (simp_all add: a_def b_def)
    moreover have "promising n E (m @ [e])"
    proof (rule promising_add [OF pr ab, where A = A])
      show "joins e a b" by (simp add: joins_def a_def b_def)
      show "\<exists>g\<in>set E. same_edge e g" using eE same_edge_refl by blast
      show "a \<in> A" by (simp add: A_def)
      show "b \<notin> A" using False by (simp add: A_def)
      show "linked m x a" if "x \<in> A" for x using that linked_sym by (simp add: A_def)
      show "eu f \<in> A \<longleftrightarrow> ev f \<in> A" if "f \<in> set m" for f
        using linked_edge [OF that] linked_trans [of m] linked_sym [of m] unfolding A_def by blast
      show "ew e \<le> ew g" if g: "g \<in> set E" "(eu g \<in> A) \<noteq> (ev g \<in> A)" for g
      proof (cases "g \<in> set ps")
        case True
        from seen [OF this] have "eu g \<in> A \<longleftrightarrow> ev g \<in> A"
          using linked_trans [of m] linked_sym [of m] unfolding A_def by blast
        with g(2) show ?thesis by simp
      next
        case False
        with g(1) E have "g \<in> set (e # es)" by auto
        with so E show ?thesis using sorted_later [of ps e es g] by simp
      qed
    qed
    ultimately have "kruskal_inv n E (ps @ [e]) ds' (m @ [e]) (js_add t (ew e))"
      unfolding kruskal_inv_def pm'_def [symmetric] using ok' apart' cover' t by simp
    with un' False show ?thesis by (auto simp: a_def b_def)
  qed
qed


lemma kruskal_loop_post:
  assumes "kruskal_inv n E ps ds m t" "ps @ es = E" "sorted (map ew E)" "valid_edges n E"
  shows "\<exists>m' t' ps' es' ds'. kruskal_loop n es ds m t = Some (m', t') \<and>
           kruskal_inv n E ps' ds' m' t' \<and> ps' @ es' = E \<and>
           (es' = [] \<or> int (length m') = int n - 1)"
  using assms
proof (induction es arbitrary: ps ds m t)
  case Nil
  then show ?case by auto
next
  case (Cons e es)
  from kruskal_step [OF Cons.prems] obtain ds' where
    un: "union_ds ds (Num (eu e)) (Num (ev e)) = Some (ds', \<not> linked m (eu e) (ev e))"
    and inv': "if linked m (eu e) (ev e) then kruskal_inv n E (ps @ [e]) ds' m t
            else kruskal_inv n E (ps @ [e]) ds' (m @ [e]) (js_add t (ew e))" by blast
  have E': "(ps @ [e]) @ es = E" using Cons.prems(2) by simp
  show ?case
  proof (cases "linked m (eu e) (ev e)")
    case True
    with inv' have "kruskal_inv n E (ps @ [e]) ds' m t" by simp
    from Cons.IH [OF this E' Cons.prems(3,4)] un True show ?thesis by simp
  next
    case False
    with inv' have i: "kruskal_inv n E (ps @ [e]) ds' (m @ [e]) (js_add t (ew e))" by simp
    show ?thesis
    proof (cases "int (length (m @ [e])) = int n - 1")
      case True
      with un False i E' show ?thesis by auto
    next
      case ne: False
      from Cons.IH [OF i E' Cons.prems(3,4)] un False ne show ?thesis by simp
    qed
  qed
qed

text \<open>
  The vertices are all in one set exactly when there are two roots: theirs, and the root
  of the set of \<^verbatim>\<open>undefined\<close>.
\<close>

lemma two_roots_same_set:
  assumes ok: "uf_ok pm" and two: "card (roots pm) = 2"
    and apart: "\<not> same_set pm x u" "\<not> same_set pm y u"
  shows "same_set pm x y"
proof -
  from ok obtain rx ry ru where r: "root_of pm x rx" "root_of pm y ry" "root_of pm u ru"
    unfolding uf_ok_def by blast
  then have in_roots: "rx \<in> roots pm" "ry \<in> roots pm" "ru \<in> roots pm"
    using root_of_self by (simp_all add: roots_iff)
  from apart r have ne: "rx \<noteq> ru" "ry \<noteq> ru" by (simp_all add: same_set_roots)
  from two have fin: "finite (roots pm)" using card.infinite by fastforce
  have "rx = ry"
  proof (rule ccontr)
    assume "rx \<noteq> ry"
    with ne have "card {rx, ry, ru} = 3" by simp
    moreover have "{rx, ry, ru} \<subseteq> roots pm" using in_roots by simp
    ultimately have "3 \<le> card (roots pm)" using card_mono [OF fin] by metis
    with two show False by simp
  qed
  with r show ?thesis by (simp add: same_set_roots)
qed

lemma same_set_two_roots:
  assumes ok: "uf_ok pm" and apart: "\<not> same_set pm z u"
    and cover: "\<And>k. same_set pm k u \<or> same_set pm k z"
  shows "card (roots pm) = 2"
proof -
  from ok obtain rz ru where r: "root_of pm z rz" "root_of pm u ru"
    unfolding uf_ok_def by blast
  from apart r have ne: "rz \<noteq> ru" by (simp add: same_set_roots)
  have "roots pm = {rz, ru}"
  proof (rule set_eqI)
    fix i
    show "i \<in> roots pm \<longleftrightarrow> i \<in> {rz, ru}"
    proof
      assume "i \<in> roots pm"
      then have ii: "root_of pm i i" by (simp add: roots_iff)
      from cover [of i] ii r have "i = ru \<or> i = rz" by (simp add: same_set_roots)
      then show "i \<in> {rz, ru}" by auto
    next
      assume "i \<in> {rz, ru}"
      with r show "i \<in> roots pm" using root_of_self by (auto simp: roots_iff)
    qed
  qed
  with ne show ?thesis by simp
qed

lemma edges_of_set_cong: "set E = set E' \<Longrightarrow> edges_of T E = edges_of T E'"
  by (simp add: edges_of_def)

lemma promising_set_cong: "set E = set E' \<Longrightarrow> promising n E m = promising n E' m"
  by (simp add: promising_def edges_of_def)

lemma spans_mono: "set es \<subseteq> set es' \<Longrightarrow> spans n es \<Longrightarrow> spans n es'"
  unfolding spans_def using linked_mono by blast

lemma spans_trans0: "spans n es \<longleftrightarrow> (\<forall>a<n. linked es a 0)"
  unfolding spans_def using linked_trans [of es] linked_sym [of es] by (cases "n = 0") blast+

text \<open>What the loop of \<^verbatim>\<open>kruskalMST\<close> returns on a valid input.\<close>

lemma kruskal_main:
  assumes n: "0 < n" and va: "valid_edges n edges"
  shows "\<exists>m t. kruskal_loop n (sort_key ew edges) (DisjointSet n) [] (Finite 0) = Some (m, t) \<and>
           t = js_sum m \<and> mset m \<subseteq># mset edges \<and> acyclic_edges m \<and> promising n edges m \<and>
           (Suc (length m) = n \<longleftrightarrow> spans n edges) \<and> (spans n edges \<longrightarrow> spans n m)"
proof -
  define E where "E = sort_key ew edges"
  have sE: "set E = set edges" and mE: "mset E = mset edges" by (simp_all add: E_def)
  have so: "sorted (map ew E)" by (simp add: E_def)
  have vE: "valid_edges n E" using va by (simp add: valid_edges_def sE)
  from kruskal_loop_post [OF kruskal_inv_init _ so vE, of E]
  obtain m t ps es ds where
    run: "kruskal_loop n E (DisjointSet n) [] (Finite 0) = Some (m, t)"
    and inv: "kruskal_inv n E ps ds m t" and E: "ps @ es = E"
    and fin: "es = [] \<or> int (length m) = int n - 1" by auto
  define pm where "pm = aget (parent ds)"
  from inv have ok: "uf_ok pm"
    and rel: "\<And>x y. x < n \<Longrightarrow> y < n \<Longrightarrow> same_set pm (Num x) (Num y) \<longleftrightarrow> linked m x y"
    and apart: "\<And>x. x < n \<Longrightarrow> \<not> same_set pm (Num x) Undefined"
    and cover: "\<And>k. same_set pm k Undefined \<or> (\<exists>x<n. same_set pm k (Num x))"
    and cnt: "card (roots pm) + length m = Suc n"
    and t: "t = js_sum m" and sub: "mset m \<subseteq># mset ps"
    and seen: "\<And>g. g \<in> set ps \<Longrightarrow> linked m (eu g) (ev g)"
    and ac: "acyclic_edges m" and pr: "promising n E m"
    unfolding kruskal_inv_def pm_def by simp_all
  have "mset ps \<subseteq># mset E" using E [symmetric] by simp
  with sub have subE: "mset m \<subseteq># mset edges" using mE by (metis subset_mset.order_trans)
  then have setm: "set m \<subseteq> set edges" using set_mset_mono [OF subE] by simp
  have one: "card (roots pm) = 2 \<longleftrightarrow> spans n m"
  proof
    assume "card (roots pm) = 2"
    then show "spans n m" unfolding spans_def
      using two_roots_same_set [OF ok _ apart apart] rel by simp
  next
    assume "spans n m"
    then have all0: "same_set pm (Num a) (Num 0)" if "a < n" for a
      using rel [OF that n] that n by (simp add: spans_def)
    have "same_set pm k Undefined \<or> same_set pm k (Num 0)" for k
    proof -
      from cover [of k] show ?thesis
      proof
        assume "same_set pm k Undefined"
        then show ?thesis by simp
      next
        assume "\<exists>x<n. same_set pm k (Num x)"
        then obtain x where x: "x < n" "same_set pm k (Num x)" by blast
        from ok obtain rk rx r0 where "root_of pm k rk" "root_of pm (Num x) rx"
          "root_of pm (Num 0) r0" unfolding uf_ok_def by blast
        with x(2) all0 [OF x(1)] show ?thesis by (simp add: same_set_roots)
      qed
    qed
    then show "card (roots pm) = 2"
      using same_set_two_roots [OF ok apart [OF n]] by blast
  qed
  have l1: "Suc (length m) = n \<longleftrightarrow> spans n m" using one cnt by auto
  have l2: "spans n m" if sp: "spans n edges"
  proof (cases "es = []")
    case True
    with E sE have "set ps = set edges" by simp
    with seen have "\<And>f. f \<in> set edges \<Longrightarrow> linked m (eu f) (ev f)" by simp
    then have "linked edges a b \<Longrightarrow> linked m a b" for a b
      by (rule linked_subst)
    with sp show ?thesis by (simp add: spans_def)
  next
    case False
    with fin have "Suc (length m) = n" by simp
    with l1 show ?thesis by simp
  qed
  have l3: "spans n edges" if "spans n m" using spans_mono [OF setm that] .
  show ?thesis
    using run t subE ac pr l1 l2 l3 promising_set_cong [OF sE, of n m]
    unfolding E_def by blast
qed


lemma int_length_pred: "0 < n \<Longrightarrow> int (length xs) = int n - 1 \<longleftrightarrow> Suc (length xs) = n"
  by arith

lemma kruskalMST_connected:
  assumes "0 < n" "valid_edges n edges" "spans n edges"
  shows "\<exists>r. kruskalMST n edges = Some (Inr r) \<and> Suc (length (mst r)) = n \<and>
           total r = js_sum (mst r) \<and> mset (mst r) \<subseteq># mset edges \<and>
           acyclic_edges (mst r) \<and> spans n (mst r) \<and> promising n edges (mst r)"
proof -
  from kruskal_main [OF assms(1,2)] assms(3) obtain m t where
    "kruskal_loop n (sort_key ew edges) (DisjointSet n) [] (Finite 0) = Some (m, t)"
    "t = js_sum m" "mset m \<subseteq># mset edges" "acyclic_edges m" "promising n edges m"
    "Suc (length m) = n" "spans n m" by blast
  then show ?thesis
    using int_length_pred [OF assms(1), of m]
    by (intro exI [of _ "\<lparr>mst = m, total = t\<rparr>"]) (simp add: kruskalMST_def)
qed


lemma spans_by_0: "(\<And>a. a < n \<Longrightarrow> linked es a 0) \<Longrightarrow> spans n es"
  by (simp add: spans_trans0)

text \<open>
  Claim C1. For \<open>n > 0\<close> and a valid edge list that connects all \<open>n\<close> vertices,
  \<^verbatim>\<open>kruskalMST\<close> returns, and the edges it returns are \<open>n - 1\<close> edges of the input
  that form a spanning tree (they connect all vertices and have no cycle) whose total
  weight is minimum: no spanning edge list of the graph (so no spanning tree) weighs
  less. The edge lists compared with may take the edges of the input in either direction.
  The weights here are the exact sums of the integers. The number \<^verbatim>\<open>total\<close> that is
  returned with the edges is what the additions of doubles give for them, in the order
  of selection; it is the weight of the tree whenever that is at most \<open>2^53\<close>.
\<close>

theorem kruskal_minimum_spanning_tree:
  assumes "0 < n" "valid_edges n edges" "spans n edges"
  shows "\<exists>r. kruskalMST n edges = Some (Inr r) \<and> length (mst r) = n - 1 \<and>
           mset (mst r) \<subseteq># mset edges \<and>
           spans n (mst r) \<and> acyclic_edges (mst r) \<and>
           (\<forall>T. edges_of T edges \<and> spans n T \<longrightarrow> weight (mst r) \<le> weight T) \<and>
           total r = js_sum (mst r) \<and>
           (weight (mst r) \<le> 2 ^ 53 \<longrightarrow> total r = Finite (weight (mst r)))"
proof -
  from kruskalMST_connected [OF assms] obtain r where
    r: "kruskalMST n edges = Some (Inr r)" "Suc (length (mst r)) = n"
       "total r = js_sum (mst r)" "mset (mst r) \<subseteq># mset edges"
       "acyclic_edges (mst r)" "spans n (mst r)" "promising n edges (mst r)" by blast
  have "\<forall>T. edges_of T edges \<and> spans n T \<longrightarrow> weight (mst r) \<le> weight T"
    using promising_min [OF r(7)] by simp
  moreover have "weight (mst r) \<le> 2 ^ 53 \<longrightarrow> total r = Finite (weight (mst r))"
    using r(3) by (simp add: js_sum_exact)
  ultimately show ?thesis using r by (intro exI [of _ r]) auto
qed

text \<open>The theorem on the triangle with three edges of weight 5.\<close>

lemma triangle_spans: "spans 3 [Edge 0 1 5, Edge 1 2 5, Edge 0 2 5]"
proof (rule spans_by_0)
  fix a :: nat assume "a < 3"
  then have "a = 0 \<or> a = 1 \<or> a = 2" by arith
  moreover have "linked [Edge 0 1 5, Edge 1 2 5, Edge 0 2 5] 1 0"
    by (rule linked_joins [of "Edge 0 1 5"]) (simp_all add: joins_def)
  moreover have "linked [Edge 0 1 5, Edge 1 2 5, Edge 0 2 5] 2 0"
    by (rule linked_joins [of "Edge 0 2 5"]) (simp_all add: joins_def)
  ultimately show "linked [Edge 0 1 5, Edge 1 2 5, Edge 0 2 5] a 0" by auto
qed

lemma triangle_other_spans: "spans 3 [Edge 2 1 5, Edge 0 2 5]"
proof (rule spans_by_0)
  fix a :: nat assume "a < 3"
  then have "a = 0 \<or> a = 1 \<or> a = 2" by arith
  moreover have 2: "linked [Edge 2 1 5, Edge 0 2 5] 2 0"
    by (rule linked_joins [of "Edge 0 2 5"]) (simp_all add: joins_def)
  moreover have "linked [Edge 2 1 5, Edge 0 2 5] 1 2"
    by (rule linked_joins [of "Edge 2 1 5"]) (simp_all add: joins_def)
  then have "linked [Edge 2 1 5, Edge 0 2 5] 1 0" using 2 by (rule linked_trans)
  ultimately show "linked [Edge 2 1 5, Edge 0 2 5] a 0" by auto
qed

lemma triangle_valid: "valid_edges 3 [Edge 0 1 5, Edge 1 2 5, Edge 0 2 5]"
  by (simp add: valid_edges_def)

theorem kruskal_minimum_witness:
  "(0::nat) < 3 \<and> valid_edges 3 [Edge 0 1 5, Edge 1 2 5, Edge 0 2 5] \<and>
   spans 3 [Edge 0 1 5, Edge 1 2 5, Edge 0 2 5] \<and>
   kruskalMST 3 [Edge 0 1 5, Edge 1 2 5, Edge 0 2 5] =
     Some (Inr \<lparr>mst = [Edge 0 1 5, Edge 1 2 5], total = Finite 10\<rparr>) \<and>
   edges_of [Edge 2 1 5, Edge 0 2 5] [Edge 0 1 5, Edge 1 2 5, Edge 0 2 5] \<and>
   spans 3 [Edge 2 1 5, Edge 0 2 5] \<and>
   weight [Edge 0 1 5, Edge 1 2 5] \<le> weight [Edge 2 1 5, Edge 0 2 5] \<and>
   weight [Edge 0 1 5, Edge 1 2 5] \<le> 2 ^ 53 \<and>
   spans 3 [Edge 0 1 5, Edge 1 2 5] \<and> acyclic_edges [Edge 0 1 5, Edge 1 2 5]"
proof -
  have k: "kruskalMST 3 [Edge 0 1 5, Edge 1 2 5, Edge 0 2 5] =
     Some (Inr \<lparr>mst = [Edge 0 1 5, Edge 1 2 5], total = Finite 10\<rparr>)" by code_simp
  have e: "edges_of [Edge 2 1 5, Edge 0 2 5] [Edge 0 1 5, Edge 1 2 5, Edge 0 2 5]"
    by (simp add: edges_of_def same_edge_def joins_def)
  from kruskal_minimum_spanning_tree [OF _ triangle_valid triangle_spans]
  have "spans 3 [Edge 0 1 5, Edge 1 2 5] \<and> acyclic_edges [Edge 0 1 5, Edge 1 2 5] \<and>
     (\<forall>T. edges_of T [Edge 0 1 5, Edge 1 2 5, Edge 0 2 5] \<and> spans 3 T \<longrightarrow>
          weight [Edge 0 1 5, Edge 1 2 5] \<le> weight T)"
    unfolding k by (simp del: weight_Cons)
  with e triangle_other_spans have
    "spans 3 [Edge 0 1 5, Edge 1 2 5]" "acyclic_edges [Edge 0 1 5, Edge 1 2 5]"
    "weight [Edge 0 1 5, Edge 1 2 5] \<le> weight [Edge 2 1 5, Edge 0 2 5]" by blast+
  moreover have "weight [Edge 0 1 5, Edge 1 2 5] \<le> 2 ^ 53" by simp
  ultimately show ?thesis using k e triangle_other_spans triangle_valid triangle_spans
    by (simp del: weight_Cons)
qed

text \<open>
  Above \<open>2^53\<close> the returned \<^verbatim>\<open>total\<close> is not the weight of the returned tree. For
  the path with the weights \<open>2^53\<close> and 3 the tree weighs \<open>2^53 + 3\<close>, which is no
  double: \<open>3 + 2^53\<close> is rounded to \<open>2^53 + 4\<close>.
\<close>

lemma DisjointSet_3:
  "DisjointSet 3 =
     \<lparr>parent = \<lparr>cells = [Num 0, Num 1, Num 2], undefined_prop = Undefined\<rparr>,
      rank = \<lparr>cells = [Num 0, Num 0, Num 0], undefined_prop = Undefined\<rparr>\<rparr>"
  by code_simp

lemma kruskal_heavy:
  "3 < W \<Longrightarrow> kruskalMST 3 [Edge 0 1 W, Edge 1 2 3] =
     Some (Inr \<lparr>mst = [Edge 1 2 3, Edge 0 1 W], total = round_double (3 + W)\<rparr>)"
  by (simp add: kruskalMST_def DisjointSet_3 union_ds_def find_ds.simps round_double_exact
      cong: if_weak_cong option.case_cong_weak prod.case_cong_weak)

lemma kruskal_total_rounded:
  "kruskalMST 3 [Edge 0 1 9007199254740992, Edge 1 2 3] =
     Some (Inr \<lparr>mst = [Edge 1 2 3, Edge 0 1 9007199254740992],
                total = Finite 9007199254740996\<rparr>)"
  "weight [Edge 1 2 3, Edge 0 1 9007199254740992] = 9007199254740995"
proof -
  have "round_double 9007199254740995 = Finite 9007199254740996"
    by (simp add: round_double_def Let_def bit_length.simps)
  then show "kruskalMST 3 [Edge 0 1 9007199254740992, Edge 1 2 3] =
     Some (Inr \<lparr>mst = [Edge 1 2 3, Edge 0 1 9007199254740992],
                total = Finite 9007199254740996\<rparr>)"
    using kruskal_heavy [of 9007199254740992] by simp
  show "weight [Edge 1 2 3, Edge 0 1 9007199254740992] = 9007199254740995" by simp
qed

section \<open>Prim's algorithm\<close>

text \<open>
  \<open>arcs_ok n E adj\<close>: \<open>adj\<close> has \<open>n\<close> lists, and the list of \<open>x\<close> holds \<open>(y, w)\<close>
  exactly when an edge of \<open>E\<close> with weight \<open>w\<close> joins \<open>x\<close> and \<open>y\<close>. That is what
  \<^verbatim>\<open>buildAdj\<close> builds.
\<close>

definition arcs_ok :: "nat \<Rightarrow> edge list \<Rightarrow> arc list list \<Rightarrow> bool" where
  "arcs_ok n E adj \<longleftrightarrow>
     length adj = n \<and>
     (\<forall>x<n. \<forall>y w. Arc y w \<in> set (adj ! x) \<longleftrightarrow> (\<exists>g\<in>set E. ew g = w \<and> joins g x y))"

lemma buildAdj_loop_ok:
  assumes "\<forall>e\<in>set es. eu e < length adj \<and> ev e < length adj"
  shows "\<exists>adj'. buildAdj_loop es adj = Inr adj' \<and> length adj' = length adj \<and>
           (\<forall>x<length adj. \<forall>y w. Arc y w \<in> set (adj' ! x) \<longleftrightarrow>
              Arc y w \<in> set (adj ! x) \<or> (\<exists>g\<in>set es. ew g = w \<and> joins g x y))"
  using assms
proof (induction es arbitrary: adj)
  case Nil
  show ?case by simp
next
  case (Cons e es)
  define adj1 where "adj1 = adj[eu e := adj ! eu e @ [Arc (ev e) (ew e)]]"
  define adj2 where "adj2 = adj1[ev e := adj1 ! ev e @ [Arc (eu e) (ew e)]]"
  have len: "length adj2 = length adj" by (simp add: adj2_def adj1_def)
  from Cons.prems have uv: "eu e < length adj" "ev e < length adj" by simp_all
  have step: "buildAdj_loop (e # es) adj = buildAdj_loop es adj2"
    using uv by (simp add: adj1_def adj2_def Let_def)
  have a2: "Arc y w \<in> set (adj2 ! x) \<longleftrightarrow> Arc y w \<in> set (adj ! x) \<or> (ew e = w \<and> joins e x y)"
    if "x < length adj" for x y w
    using that uv by (auto simp: adj2_def adj1_def nth_list_update joins_def)
  from Cons.prems len have "\<forall>e\<in>set es. eu e < length adj2 \<and> ev e < length adj2" by simp
  from Cons.IH [OF this] obtain adj' where r: "buildAdj_loop es adj2 = Inr adj'"
    "length adj' = length adj2"
    "\<forall>x<length adj2. \<forall>y w. Arc y w \<in> set (adj' ! x) \<longleftrightarrow>
       Arc y w \<in> set (adj2 ! x) \<or> (\<exists>g\<in>set es. ew g = w \<and> joins g x y)" by blast
  have "\<forall>x<length adj. \<forall>y w. Arc y w \<in> set (adj' ! x) \<longleftrightarrow>
       Arc y w \<in> set (adj ! x) \<or> (\<exists>g\<in>set (e # es). ew g = w \<and> joins g x y)"
    using r(3) a2 len by auto
  with r(1,2) step len show ?case by simp
qed

lemma buildAdj_ok:
  assumes "valid_edges n E"
  shows "\<exists>adj. buildAdj n E = Inr adj \<and> arcs_ok n E adj"
proof -
  from assms have "\<forall>e\<in>set E. eu e < length (replicate n ([]::arc list)) \<and>
     ev e < length (replicate n ([]::arc list))" by (simp add: valid_edges_def)
  from buildAdj_loop_ok [OF this] show ?thesis
    unfolding buildAdj_def arcs_ok_def by auto
qed

lemma set_push: "heap_ok d \<Longrightarrow> set (push d x) = insert x (set d)"
proof -
  assume "heap_ok d"
  then have "mset (push d x) = add_mset x (mset d)" using push_ok by simp
  then have "set_mset (mset (push d x)) = set_mset (add_mset x (mset d))" by simp
  then show ?thesis by simp
qed

lemma push_unvisited_ok:
  "heap_ok h \<Longrightarrow>
     heap_ok (push_unvisited V x arcs h) \<and>
     set (push_unvisited V x arcs h) = set h \<union> {Edge x (to a) (aw a) | a. a \<in> set arcs \<and> to a \<notin> V}"
  unfolding push_unvisited_def
proof (induction arcs arbitrary: h)
  case Nil
  then show ?case by simp
next
  case (Cons a arcs)
  show ?case
  proof (cases "to a \<in> V")
    case True
    with Cons.IH [OF Cons.prems] show ?thesis by auto
  next
    case False
    from push_ok [OF Cons.prems] have h: "heap_ok (push h (Edge x (to a) (aw a)))" by simp
    from Cons.IH [OF h] set_push [OF Cons.prems] False show ?thesis by auto
  qed
qed

lemma push_all_ok:
  "heap_ok h \<Longrightarrow>
     heap_ok (push_all x arcs h) \<and>
     set (push_all x arcs h) = set h \<union> {Edge x (to a) (aw a) | a. a \<in> set arcs}"
  unfolding push_all_def
proof (induction arcs arbitrary: h)
  case Nil
  then show ?case by simp
next
  case (Cons a arcs)
  from push_ok [OF Cons.prems] have h: "heap_ok (push h (Edge x (to a) (aw a)))" by simp
  from Cons.IH [OF h] set_push [OF Cons.prems] show ?case by auto
qed


text \<open>
  The invariant of the loop of \<^verbatim>\<open>primMST\<close>, started at \<open>s\<close>: the selection \<open>m\<close>
  links the visited vertices (and touches no other vertex), has no cycle and is
  promising, and \<open>t\<close> is what adding up its weights has given; the heap is in heap order, its items are edges of the graph that start at a
  visited vertex, and it holds every edge from a visited to an unvisited vertex.
\<close>

definition prim_inv ::
  "nat \<Rightarrow> edge list \<Rightarrow> arc list list \<Rightarrow> nat \<Rightarrow> nat set \<Rightarrow> edge list \<Rightarrow> edge list \<Rightarrow> number \<Rightarrow>
     bool" where
  "prim_inv n E adj s vis h m t \<longleftrightarrow>
     s \<in> vis \<and> vis \<subseteq> {0..<n} \<and> card vis = Suc (length m) \<and>
     (\<forall>x\<in>vis. linked m x s) \<and>
     (\<forall>f\<in>set m. eu f \<in> vis \<and> ev f \<in> vis) \<and>
     heap_ok h \<and>
     (\<forall>f\<in>set h. eu f \<in> vis \<and> ev f < n \<and> (\<exists>g\<in>set E. same_edge f g)) \<and>
     (\<forall>x\<in>vis. \<forall>y w. Arc y w \<in> set (adj ! x) \<and> y \<notin> vis \<longrightarrow> Edge x y w \<in> set h) \<and>
     t = js_sum m \<and> acyclic_edges m \<and> promising n E m \<and> edges_of m E"

lemma linked_closed:
  assumes "\<And>f. f \<in> set m \<Longrightarrow> eu f \<in> A \<longleftrightarrow> ev f \<in> A"
  shows "linked m a b \<Longrightarrow> a \<in> A \<longleftrightarrow> b \<in> A"
  unfolding linked_def
proof (induction rule: rtrancl_induct)
  case base
  show ?case by simp
next
  case (step y z)
  from step.hyps(2) obtain f where "f \<in> set m" "joins f y z" by (auto simp: adjacent_def)
  with assms [of f] have "y \<in> A \<longleftrightarrow> z \<in> A" by (auto simp: joins_def)
  with step.IH show ?case by simp
qed

lemma arcs_ok_same_edge:
  assumes "arcs_ok n E adj" "x < n" "a \<in> set (adj ! x)"
  shows "\<exists>g\<in>set E. same_edge (Edge x (to a) (aw a)) g"
proof -
  from assms(3) have "Arc (to a) (aw a) \<in> set (adj ! x)" by simp
  with assms(1,2) obtain g where "g \<in> set E" "ew g = aw a" "joins g x (to a)"
    unfolding arcs_ok_def by blast
  then show ?thesis by (intro bexI [of _ g]) (simp_all add: same_edge_def)
qed

lemma same_edge_valid:
  assumes "valid_edges n E" "g \<in> set E" "same_edge f g"
  shows "eu f < n \<and> ev f < n \<and> eu f \<noteq> ev f"
  using assms by (auto simp: valid_edges_def same_edge_def joins_def)

lemma prim_inv_init:
  assumes ar: "arcs_ok n E adj" and va: "valid_edges n E" and s: "s < n"
  shows "prim_inv n E adj s {s} (push_all s (adj ! s) []) [] (Finite 0)"
proof -
  from push_all_ok [OF heap_ok_Nil, of s "adj ! s"]
  have h: "heap_ok (push_all s (adj ! s) [])"
    and sh: "set (push_all s (adj ! s) []) = {Edge s (to a) (aw a) | a. a \<in> set (adj ! s)}"
    by simp_all
  have 1: "eu f \<in> {s} \<and> ev f < n \<and> (\<exists>g\<in>set E. same_edge f g)"
    if "f \<in> set (push_all s (adj ! s) [])" for f
  proof -
    from that sh obtain a where a: "a \<in> set (adj ! s)" "f = Edge s (to a) (aw a)" by auto
    from arcs_ok_same_edge [OF ar s a(1)] obtain g where g: "g \<in> set E" "same_edge f g"
      using a(2) by blast
    with same_edge_valid [OF va g] a(2) show ?thesis by auto
  qed
  have 2: "Edge x y w \<in> set (push_all s (adj ! s) [])"
    if "x \<in> {s}" "Arc y w \<in> set (adj ! x)" for x y w
  proof -
    from that have "Arc y w \<in> set (adj ! s)" by simp
    then have "\<exists>a. Edge s y w = Edge s (to a) (aw a) \<and> a \<in> set (adj ! s)"
      by (intro exI [of _ "Arc y w"]) simp
    with that(1) sh show ?thesis by auto
  qed
  show ?thesis
    unfolding prim_inv_def using s h 1 2 by (simp add: promising_Nil edges_of_def)
qed

lemma prim_step_stale:
  assumes inv: "prim_inv n E adj s vis h m t" and ne: "h \<noteq> []"
    and p: "pop h = (Some e, h')" and st: "ev e \<in> vis"
  shows "prim_inv n E adj s vis h' m t"
proof -
  from inv have hk: "heap_ok h" by (simp add: prim_inv_def)
  from pop_ok [OF hk ne] p have e: "e = h ! 0" and hk': "heap_ok h'"
    and ms: "mset h = add_mset e (mset h')" by auto
  from ms have "set_mset (mset h) = set_mset (add_mset e (mset h'))" by simp
  then have sh: "set h = insert e (set h')" by simp
  have "Edge x y w \<in> set h'" if "x \<in> vis" "Arc y w \<in> set (adj ! x)" "y \<notin> vis" for x y w
  proof -
    from inv that have "Edge x y w \<in> set h" unfolding prim_inv_def by blast
    moreover have "Edge x y w \<noteq> e" using st that(3) by auto
    ultimately show ?thesis using sh by simp
  qed
  with inv hk' sh show ?thesis unfolding prim_inv_def by auto
qed


lemma prim_step_new:
  assumes inv: "prim_inv n E adj s vis h m t" and ar: "arcs_ok n E adj" and va: "valid_edges n E"
    and ne: "h \<noteq> []" and p: "pop h = (Some e, h')" and nv: "ev e \<notin> vis"
  shows "ev e < length adj \<and>
         prim_inv n E adj s (insert (ev e) vis)
           (push_unvisited (insert (ev e) vis) (ev e) (adj ! ev e) h') (m @ [e]) (js_add t (ew e))"
proof -
  define u where "u = eu e"
  define v where "v = ev e"
  define vis' where "vis' = insert v vis"
  define h'' where "h'' = push_unvisited vis' v (adj ! v) h'"
  from inv have s: "s \<in> vis" and sub: "vis \<subseteq> {0..<n}" and card: "card vis = Suc (length m)"
    and ls: "\<And>x. x \<in> vis \<Longrightarrow> linked m x s"
    and mv: "\<And>f. f \<in> set m \<Longrightarrow> eu f \<in> vis \<and> ev f \<in> vis"
    and hk: "heap_ok h"
    and hv: "\<And>f. f \<in> set h \<Longrightarrow> eu f \<in> vis \<and> ev f < n \<and> (\<exists>g\<in>set E. same_edge f g)"
    and hc: "\<And>x y w. x \<in> vis \<Longrightarrow> Arc y w \<in> set (adj ! x) \<Longrightarrow> y \<notin> vis \<Longrightarrow> Edge x y w \<in> set h"
    and t: "t = js_sum m" and ac: "acyclic_edges m" and pr: "promising n E m"
    and mE: "edges_of m E"
    unfolding prim_inv_def by blast+
  from ar have la: "length adj = n" by (simp add: arcs_ok_def)
  from pop_ok [OF hk ne] p have e: "e = h ! 0" and hk': "heap_ok h'"
    and ms: "mset h = add_mset e (mset h')" by auto
  from ms have "set_mset (mset h) = set_mset (add_mset e (mset h'))" by simp
  then have sh: "set h = insert e (set h')" by simp
  then have eh: "e \<in> set h" by simp
  from hv [OF eh] have uvis: "u \<in> vis" and vn: "v < n" and eE: "\<exists>g\<in>set E. same_edge e g"
    by (simp_all add: u_def v_def)
  from uvis sub have un: "u < n" by auto
  have fin: "finite vis" using sub finite_subset by blast
  from push_unvisited_ok [OF hk', of vis' v "adj ! v"]
  have hk'': "heap_ok h''"
    and sh'': "set h'' = set h' \<union> {Edge v (to a) (aw a) | a. a \<in> set (adj ! v) \<and> to a \<notin> vis'}"
    by (simp_all add: h''_def)
  have closed: "eu f \<in> vis \<longleftrightarrow> ev f \<in> vis" if "f \<in> set m" for f using mv [OF that] by simp
  have nl: "\<not> linked m u v"
    using linked_closed [of m vis u v] closed uvis nv by (auto simp: v_def)
  have 1: "s \<in> vis'" using s by (simp add: vis'_def)
  have 2: "vis' \<subseteq> {0..<n}" using sub vn by (simp add: vis'_def)
  have 3: "card vis' = Suc (length (m @ [e]))" using card fin nv by (simp add: vis'_def v_def)
  have mono: "linked m x y \<Longrightarrow> linked (m @ [e]) x y" for x y
    by (rule linked_mono [of m]) auto
  have uv: "linked (m @ [e]) v u"
    by (rule linked_joins [of e]) (simp_all add: joins_def u_def v_def)
  have 4: "linked (m @ [e]) x s" if "x \<in> vis'" for x
  proof (cases "x = v")
    case True
    with uv mono [OF ls [OF uvis]] show ?thesis using linked_trans by blast
  next
    case False
    with that have "x \<in> vis" by (simp add: vis'_def)
    from mono [OF ls [OF this]] show ?thesis .
  qed
  have 5: "eu f \<in> vis' \<and> ev f \<in> vis'" if "f \<in> set (m @ [e])" for f
    using that mv uvis by (auto simp: vis'_def u_def v_def)
  have 6: "eu f \<in> vis' \<and> ev f < n \<and> (\<exists>g\<in>set E. same_edge f g)" if f: "f \<in> set h''" for f
  proof (cases "f \<in> set h'")
    case True
    with sh hv [of f] show ?thesis by (simp add: vis'_def)
  next
    case False
    with f sh'' obtain a where a: "a \<in> set (adj ! v)" "f = Edge v (to a) (aw a)" by auto
    from arcs_ok_same_edge [OF ar vn a(1)] obtain g where g: "g \<in> set E" "same_edge f g"
      using a(2) by blast
    with same_edge_valid [OF va g] a(2) show ?thesis by (auto simp: vis'_def)
  qed
  have 7: "Edge x y w \<in> set h''" if x: "x \<in> vis'" "Arc y w \<in> set (adj ! x)" "y \<notin> vis'" for x y w
  proof (cases "x = v")
    case True
    with x have "\<exists>a. Edge x y w = Edge v (to a) (aw a) \<and> a \<in> set (adj ! v) \<and> to a \<notin> vis'"
      by (intro exI [of _ "Arc y w"]) simp
    with sh'' show ?thesis by auto
  next
    case False
    with x have xv: "x \<in> vis" "y \<notin> vis" by (simp_all add: vis'_def)
    from hc [OF xv(1) x(2) xv(2)] have "Edge x y w \<in> set h" .
    moreover have "Edge x y w \<noteq> e" using x(3) by (auto simp: vis'_def v_def)
    ultimately show ?thesis using sh sh'' by simp
  qed
  have 8: "acyclic_edges (m @ [e])" using ac nl by (intro acyclic_add) (simp_all add: u_def v_def)
  have 9: "promising n E (m @ [e])"
  proof (rule promising_add [OF pr un vn _ eE, where A = vis])
    show "joins e u v" by (simp add: joins_def u_def v_def)
    show "u \<in> vis" by (rule uvis)
    show "v \<notin> vis" using nv by (simp add: v_def)
    show "linked m x u" if "x \<in> vis" for x
      using ls [OF that] ls [OF uvis] linked_sym linked_trans by blast
    show "eu f \<in> vis \<longleftrightarrow> ev f \<in> vis" if "f \<in> set m" for f by (rule closed [OF that])
    show "ew e \<le> ew g" if g: "g \<in> set E" "(eu g \<in> vis) \<noteq> (ev g \<in> vis)" for g
    proof -
      from g(2) obtain x y where xy: "joins g x y" "x \<in> vis" "y \<notin> vis"
        by (auto simp: joins_def)
      from xy(2) sub have "x < n" by auto
      with ar g(1) xy(1) have "Arc y (ew g) \<in> set (adj ! x)" unfolding arcs_ok_def by blast
      from hc [OF xy(2) this xy(3)] have "Edge x y (ew g) \<in> set h" .
      from pop_min [OF hk this] e show ?thesis by simp
    qed
  qed
  have 10: "edges_of (m @ [e]) E" using mE eE by (auto simp: edges_of_def)
  have "prim_inv n E adj s vis' h'' (m @ [e]) (js_add t (ew e))"
    unfolding prim_inv_def using 1 2 3 4 5 6 7 8 9 10 hk'' t by simp
  with vn la show ?thesis by (simp add: vis'_def h''_def v_def)
qed


lemma prim_loop_post:
  "arcs_ok n E adj \<Longrightarrow> valid_edges n E \<Longrightarrow> prim_inv n E adj s vis h m t \<Longrightarrow>
     \<exists>m' t' vis' h'. prim_loop n adj vis h m t = Inr (m', t') \<and>
        prim_inv n E adj s vis' h' m' t' \<and> (h' = [] \<or> \<not> int (length m') < int n - 1)"
proof (induction n adj vis h m t rule: prim_loop.induct)
  case (1 n adj visited h m t)
  note ar = "1.prems"(1) and va = "1.prems"(2) and inv = "1.prems"(3)
  show ?case
  proof (cases "0 < length h \<and> int (length m) < int n - 1")
    case False
    then have "prim_loop n adj visited h m t = Inr (m, t)"
      by (subst prim_loop.simps) auto
    with inv False show ?thesis by auto
  next
    case True
    then have ne: "h \<noteq> []" by auto
    from inv have "heap_ok h" by (simp add: prim_inv_def)
    from pop_ok [OF this ne] obtain h' where p: "pop h = (Some (h ! 0), h')" by blast
    define e where "e = h ! 0"
    have p': "pop h = (Some e, h')" using p by (simp add: e_def)
    show ?thesis
    proof (cases "ev e \<in> visited")
      case st: True
      have eq: "prim_loop n adj visited h m t = prim_loop n adj visited h' m t"
        using True p' st by (subst prim_loop.simps) simp
      from prim_step_stale [OF inv ne p' st] have "prim_inv n E adj s visited h' m t" .
      from "1.IH"(1) [OF True p' [symmetric] refl st ar va this] eq show ?thesis by simp
    next
      case nv: False
      from prim_step_new [OF inv ar va ne p' nv]
      have lt: "ev e < length adj"
        and inv': "prim_inv n E adj s (insert (ev e) visited)
           (push_unvisited (insert (ev e) visited) (ev e) (adj ! ev e) h') (m @ [e]) (js_add t (ew e))"
        by simp_all
      have eq: "prim_loop n adj visited h m t =
         prim_loop n adj (insert (ev e) visited)
           (push_unvisited (insert (ev e) visited) (ev e) (adj ! ev e) h') (m @ [e]) (js_add t (ew e))"
        using True p' nv lt by (subst prim_loop.simps) simp
      from "1.IH"(2) [OF True p' [symmetric] refl nv lt ar va] inv' eq show ?thesis by simp
    qed
  qed
qed

lemma edges_of_linked:
  assumes "edges_of T E"
  shows "linked T a b \<Longrightarrow> linked E a b"
proof (rule linked_subst)
  fix t assume "t \<in> set T"
  with assms obtain g where "g \<in> set E" "joins g (eu t) (ev t)"
    unfolding edges_of_def same_edge_def by blast
  then show "linked E (eu t) (ev t)" by (rule linked_joins)
qed

text \<open>What the loop of \<^verbatim>\<open>primMST\<close> returns on the adjacency lists of a valid input.\<close>

lemma prim_main:
  assumes n: "0 < n" and va: "valid_edges n E" and ar: "arcs_ok n E adj" and s: "s < n"
  shows "\<exists>m t. prim_loop n adj {s} (push_all s (adj ! s) []) [] (Finite 0) = Inr (m, t) \<and>
           t = js_sum m \<and> edges_of m E \<and> acyclic_edges m \<and> promising n E m \<and>
           (Suc (length m) = n \<longleftrightarrow> spans n E) \<and> (spans n E \<longrightarrow> spans n m)"
proof -
  from prim_loop_post [OF ar va prim_inv_init [OF ar va s]] obtain m t vis h where
    run: "prim_loop n adj {s} (push_all s (adj ! s) []) [] (Finite 0) = Inr (m, t)"
    and inv: "prim_inv n E adj s vis h m t"
    and fin: "h = [] \<or> \<not> int (length m) < int n - 1" by blast
  from inv have sv: "s \<in> vis" and sub: "vis \<subseteq> {0..<n}" and card: "card vis = Suc (length m)"
    and ls: "\<And>x. x \<in> vis \<Longrightarrow> linked m x s"
    and hc: "\<And>x y w. x \<in> vis \<Longrightarrow> Arc y w \<in> set (adj ! x) \<Longrightarrow> y \<notin> vis \<Longrightarrow> Edge x y w \<in> set h"
    and t: "t = js_sum m" and ac: "acyclic_edges m" and pr: "promising n E m"
    and mE: "edges_of m E"
    unfolding prim_inv_def by blast+
  have cle: "card vis \<le> n" using card_mono [OF _ sub] by simp
  have all: "vis = {0..<n}" if "Suc (length m) = n"
    using card_subset_eq [OF _ sub] card that by simp
  have l1: "spans n m" if "Suc (length m) = n"
    unfolding spans_trans0 [of n m]
  proof (intro allI impI)
    fix a assume "a < n"
    with all [OF that] have "a \<in> vis" by simp
    from ls [OF this] ls [of 0] all [OF that] n show "linked m a 0"
      using linked_sym linked_trans by (metis atLeastLessThan_iff le0)
  qed
  have l2: "Suc (length m) = n" if sp: "spans n E"
  proof (rule ccontr)
    assume neq: "Suc (length m) \<noteq> n"
    with card cle have lt: "card vis < n" by simp
    then have "vis \<noteq> {0..<n}" by auto
    with sub have "\<exists>z\<in>{0..<n}. z \<notin> vis" by blast
    then obtain z where z: "z < n" "z \<notin> vis" by auto
    from sp s z(1) have "linked E s z" by (simp add: spans_def)
    from crossing_edge [OF this sv z(2)] obtain g x y where
      g: "g \<in> set E" "joins g x y" "x \<in> vis" "y \<notin> vis" by blast
    from g(3) sub have "x < n" by auto
    with ar g(1,2) have "Arc y (ew g) \<in> set (adj ! x)" unfolding arcs_ok_def by blast
    from hc [OF g(3) this g(4)] have "h \<noteq> []" by auto
    with fin have "\<not> int (length m) < int n - 1" by simp
    with neq card cle show False by simp
  qed
  have l3: "spans n E" if "spans n m"
    using that edges_of_linked [OF mE] unfolding spans_def by blast
  show ?thesis using run t mE ac pr l1 l2 l3 by blast
qed


section \<open>Both algorithms on connected and on disconnected inputs\<close>

lemma prim_connected:
  assumes "0 < n" "valid_edges n E" "spans n E" "s < n"
  shows "\<exists>r. prim_of_edges n E s = Inr r \<and> Suc (length (mst r)) = n \<and>
           total r = js_sum (mst r) \<and> edges_of (mst r) E \<and>
           acyclic_edges (mst r) \<and> spans n (mst r) \<and> promising n E (mst r)"
proof -
  from buildAdj_ok [OF assms(2)] obtain adj where
    adj: "buildAdj n E = Inr adj" "arcs_ok n E adj" by blast
  from prim_main [OF assms(1,2) adj(2) assms(4)] assms(3) obtain m t where
    "prim_loop n adj {s} (push_all s (adj ! s) []) [] (Finite 0) = Inr (m, t)"
    "t = js_sum m" "edges_of m E" "acyclic_edges m" "promising n E m"
    "Suc (length m) = n" "spans n m" by blast
  moreover have "s < length adj" using adj(2) assms(4) by (simp add: arcs_ok_def)
  ultimately show ?thesis
    using int_length_pred [OF assms(1), of m] adj(1)
    by (intro exI [of _ "\<lparr>mst = m, total = t\<rparr>"]) (simp add: prim_of_edges_def primMST_def)
qed


lemma mset_subset_edges_of: "mset T \<subseteq># mset E \<Longrightarrow> edges_of T E"
proof (rule edges_of_subset)
  assume "mset T \<subseteq># mset E"
  then have "set_mset (mset T) \<subseteq> set_mset (mset E)" by (rule set_mset_mono)
  then show "set T \<subseteq> set E" by simp
qed

text \<open>
  Claim C2. On a connected valid input, what \<^verbatim>\<open>kruskalMST\<close> returns and what
  \<^verbatim>\<open>primMST\<close> returns (on the adjacency lists of \<^verbatim>\<open>buildAdj\<close>, from any start
  vertex below \<open>n\<close>) has exactly \<open>n - 1\<close> entries, has no cycle, connects all \<open>n\<close>
  vertices and consists of edges of the input (Kruskal's as they stand in the input,
  Prim's directed from the visited vertex to the new one).
\<close>

theorem spanning_tree_both:
  assumes "0 < n" "valid_edges n edges" "spans n edges" "start < n"
  shows "(\<exists>r. kruskalMST n edges = Some (Inr r) \<and> length (mst r) = n - 1 \<and>
              acyclic_edges (mst r) \<and> spans n (mst r) \<and> mset (mst r) \<subseteq># mset edges) \<and>
         (\<exists>r. prim_of_edges n edges start = Inr r \<and> length (mst r) = n - 1 \<and>
              acyclic_edges (mst r) \<and> spans n (mst r) \<and> edges_of (mst r) edges)"
proof
  from kruskalMST_connected [OF assms(1,2,3)] obtain r where
    "kruskalMST n edges = Some (Inr r)" "Suc (length (mst r)) = n"
    "acyclic_edges (mst r)" "spans n (mst r)" "mset (mst r) \<subseteq># mset edges" by blast
  then show "\<exists>r. kruskalMST n edges = Some (Inr r) \<and> length (mst r) = n - 1 \<and>
              acyclic_edges (mst r) \<and> spans n (mst r) \<and> mset (mst r) \<subseteq># mset edges"
    by (intro exI [of _ r]) auto
next
  from prim_connected [OF assms] obtain r where
    "prim_of_edges n edges start = Inr r" "Suc (length (mst r)) = n"
    "acyclic_edges (mst r)" "spans n (mst r)" "edges_of (mst r) edges" by blast
  then show "\<exists>r. prim_of_edges n edges start = Inr r \<and> length (mst r) = n - 1 \<and>
              acyclic_edges (mst r) \<and> spans n (mst r) \<and> edges_of (mst r) edges"
    by (intro exI [of _ r]) auto
qed

text \<open>
  Claim C3, as amended. On a connected valid input, the edges that \<^verbatim>\<open>kruskalMST\<close>
  returns and the edges that \<^verbatim>\<open>primMST\<close> returns (on the adjacency lists of
  \<^verbatim>\<open>buildAdj\<close>) have the same total weight, whatever the start vertex; and when that
  weight is at most \<open>2^53\<close> the returned totals are that weight, so they are the same,
  and two start vertices give Prim the same total. (As the claim is written, for every
  connected graph, it does not hold of the returned totals: they are sums of doubles,
  which are rounded above \<open>2^53\<close> and then depend on the order of the additions.)
\<close>

theorem kruskal_prim_same_total:
  assumes "0 < n" "valid_edges n edges" "spans n edges" "start < n" "start' < n"
  shows "\<exists>rk rp rp'. kruskalMST n edges = Some (Inr rk) \<and>
           prim_of_edges n edges start = Inr rp \<and> prim_of_edges n edges start' = Inr rp' \<and>
           weight (mst rk) = weight (mst rp) \<and> weight (mst rp) = weight (mst rp') \<and>
           (weight (mst rk) \<le> 2 ^ 53 \<longrightarrow>
              total rk = Finite (weight (mst rk)) \<and> total rp = total rk \<and> total rp' = total rk)"
proof -
  from kruskalMST_connected [OF assms(1,2,3)] obtain rk where
    k: "kruskalMST n edges = Some (Inr rk)" "total rk = js_sum (mst rk)"
       "mset (mst rk) \<subseteq># mset edges" "spans n (mst rk)" "promising n edges (mst rk)" by blast
  from prim_connected [OF assms(1,2,3,4)] obtain rp where
    p: "prim_of_edges n edges start = Inr rp" "total rp = js_sum (mst rp)"
       "edges_of (mst rp) edges" "spans n (mst rp)" "promising n edges (mst rp)" by blast
  from prim_connected [OF assms(1,2,3,5)] obtain rp' where
    p': "prim_of_edges n edges start' = Inr rp'" "total rp' = js_sum (mst rp')"
       "edges_of (mst rp') edges" "spans n (mst rp')" "promising n edges (mst rp')" by blast
  have ke: "edges_of (mst rk) edges" using k(3) by (rule mset_subset_edges_of)
  have "weight (mst rk) \<le> weight (mst rp)" using promising_min [OF k(5) p(3,4)] .
  moreover have "weight (mst rp) \<le> weight (mst rk)" using promising_min [OF p(5) ke k(4)] .
  moreover have "weight (mst rk) \<le> weight (mst rp')" using promising_min [OF k(5) p'(3,4)] .
  moreover have "weight (mst rp') \<le> weight (mst rk)" using promising_min [OF p'(5) ke k(4)] .
  ultimately have w: "weight (mst rk) = weight (mst rp)" "weight (mst rp) = weight (mst rp')"
    by simp_all
  have "total rk = Finite (weight (mst rk)) \<and> total rp = total rk \<and> total rp' = total rk"
    if "weight (mst rk) \<le> 2 ^ 53"
    using that w k(2) p(2) p'(2) by (simp add: js_sum_exact)
  with k(1) p(1) p'(1) w show ?thesis by blast
qed



text \<open>The theorems on the triangle with three edges of weight 5, and on the
  specification's disconnected example \<open>n = 4\<close>, \<open>edges = [(0,1,5)]\<close>.\<close>

lemma triangle_prim:
  "prim_of_edges 3 [Edge 0 1 5, Edge 1 2 5, Edge 0 2 5] 0 =
     Inr \<lparr>mst = [Edge 0 1 5, Edge 0 2 5], total = Finite 10\<rparr>"
  "prim_of_edges 3 [Edge 0 1 5, Edge 1 2 5, Edge 0 2 5] 2 =
     Inr \<lparr>mst = [Edge 2 1 5, Edge 2 0 5], total = Finite 10\<rparr>"
  by code_simp+

lemma triangle_kruskal:
  "kruskalMST 3 [Edge 0 1 5, Edge 1 2 5, Edge 0 2 5] =
     Some (Inr \<lparr>mst = [Edge 0 1 5, Edge 1 2 5], total = Finite 10\<rparr>)"
  by code_simp

theorem spanning_tree_both_witness:
  "(0::nat) < 3 \<and> valid_edges 3 [Edge 0 1 5, Edge 1 2 5, Edge 0 2 5] \<and>
   spans 3 [Edge 0 1 5, Edge 1 2 5, Edge 0 2 5] \<and> (2::nat) < 3 \<and>
   kruskalMST 3 [Edge 0 1 5, Edge 1 2 5, Edge 0 2 5] =
     Some (Inr \<lparr>mst = [Edge 0 1 5, Edge 1 2 5], total = Finite 10\<rparr>) \<and>
   acyclic_edges [Edge 0 1 5, Edge 1 2 5] \<and> spans 3 [Edge 0 1 5, Edge 1 2 5] \<and>
   prim_of_edges 3 [Edge 0 1 5, Edge 1 2 5, Edge 0 2 5] 2 =
     Inr \<lparr>mst = [Edge 2 1 5, Edge 2 0 5], total = Finite 10\<rparr> \<and>
   acyclic_edges [Edge 2 1 5, Edge 2 0 5] \<and> spans 3 [Edge 2 1 5, Edge 2 0 5]"
proof -
  have "(2::nat) < 3" by simp
  from spanning_tree_both [OF _ triangle_valid triangle_spans this]
  show ?thesis
    unfolding triangle_kruskal triangle_prim using triangle_valid triangle_spans by simp
qed

theorem kruskal_prim_same_total_witness:
  "(0::nat) < 3 \<and> valid_edges 3 [Edge 0 1 5, Edge 1 2 5, Edge 0 2 5] \<and>
   spans 3 [Edge 0 1 5, Edge 1 2 5, Edge 0 2 5] \<and> (0::nat) < 3 \<and> (2::nat) < 3 \<and>
   weight [Edge 0 1 5, Edge 1 2 5] \<le> 2 ^ 53 \<and>
   (\<exists>rk rp rp'. kruskalMST 3 [Edge 0 1 5, Edge 1 2 5, Edge 0 2 5] = Some (Inr rk) \<and>
      prim_of_edges 3 [Edge 0 1 5, Edge 1 2 5, Edge 0 2 5] 0 = Inr rp \<and>
      prim_of_edges 3 [Edge 0 1 5, Edge 1 2 5, Edge 0 2 5] 2 = Inr rp' \<and>
      weight (mst rk) = weight (mst rp) \<and> weight (mst rp) = weight (mst rp') \<and>
      total rk = Finite 10 \<and> total rp = total rk \<and> total rp' = total rk)"
proof -
  have n: "(0::nat) < 3" "(2::nat) < 3" by simp_all
  from kruskal_prim_same_total [OF n(1) triangle_valid triangle_spans n] obtain rk rp rp' where
    r: "kruskalMST 3 [Edge 0 1 5, Edge 1 2 5, Edge 0 2 5] = Some (Inr rk)"
       "prim_of_edges 3 [Edge 0 1 5, Edge 1 2 5, Edge 0 2 5] 0 = Inr rp"
       "prim_of_edges 3 [Edge 0 1 5, Edge 1 2 5, Edge 0 2 5] 2 = Inr rp'"
       "weight (mst rk) = weight (mst rp)" "weight (mst rp) = weight (mst rp')"
    and imp: "weight (mst rk) \<le> 2 ^ 53 \<longrightarrow>
       total rk = Finite (weight (mst rk)) \<and> total rp = total rk \<and> total rp' = total rk"
    by blast
  from r(1) have m: "mst rk = [Edge 0 1 5, Edge 1 2 5]" unfolding triangle_kruskal by auto
  have w: "weight [Edge 0 1 5, Edge 1 2 5] \<le> 2 ^ 53" by simp
  with imp m have "total rk = Finite 10 \<and> total rp = total rk \<and> total rp' = total rk" by simp
  with r w show ?thesis using triangle_valid triangle_spans by (simp del: weight_Cons)
qed

text \<open>
  The claim as it is written fails on the path \<open>0 - 1 - 2 - 3\<close> with the weights
  \<open>2^53\<close>, 1 and 1. Kruskal's algorithm adds the weights in ascending order:
  \<open>1 + 1 + 2^53\<close> is the double \<open>2^53 + 2\<close>. Prim's algorithm from the vertex 0 starts
  with the heavy edge: \<open>2^53 + 1\<close> is no double and is rounded to \<open>2^53\<close>, twice. From
  the vertex 3 it returns the same total as Kruskal's algorithm. The three runs are
  first evaluated for any weight \<open>W > 1\<close> of the edge from 0 to 1.
\<close>

lemma DisjointSet_4:
  "DisjointSet 4 =
     \<lparr>parent = \<lparr>cells = [Num 0, Num 1, Num 2, Num 3], undefined_prop = Undefined\<rparr>,
      rank = \<lparr>cells = [Num 0, Num 0, Num 0, Num 0], undefined_prop = Undefined\<rparr>\<rparr>"
  by code_simp

lemma path_kruskal:
  "1 < W \<Longrightarrow> kruskalMST 4 [Edge 0 1 W, Edge 1 2 1, Edge 2 3 1] =
     Some (Inr \<lparr>mst = [Edge 1 2 1, Edge 2 3 1, Edge 0 1 W], total = round_double (2 + W)\<rparr>)"
  by (simp add: kruskalMST_def DisjointSet_4 union_ds_def find_ds.simps round_double_exact
      cong: if_weak_cong option.case_cong_weak prod.case_cong_weak)

lemma path_prim_0:
  "1 < W \<Longrightarrow> prim_of_edges 4 [Edge 0 1 W, Edge 1 2 1, Edge 2 3 1] 0 =
     Inr \<lparr>mst = [Edge 0 1 W, Edge 1 2 1, Edge 2 3 1],
          total = js_add (js_add (round_double W) 1) 1\<rparr>"
  by (simp add: prim_of_edges_def buildAdj_def primMST_def prim_loop.simps push_all_def
        push_unvisited_def push_def pop_def bubbleUp.simps bubbleDown.simps swap_def Let_def
      cong: if_weak_cong option.case_cong_weak prod.case_cong_weak sum.case_cong_weak)

lemma path_prim_3:
  "1 < W \<Longrightarrow> prim_of_edges 4 [Edge 0 1 W, Edge 1 2 1, Edge 2 3 1] 3 =
     Inr \<lparr>mst = [Edge 3 2 1, Edge 2 1 1, Edge 1 0 W], total = round_double (2 + W)\<rparr>"
  by (simp add: prim_of_edges_def buildAdj_def primMST_def prim_loop.simps push_all_def
        push_unvisited_def push_def pop_def bubbleUp.simps bubbleDown.simps swap_def Let_def
        round_double_exact
      cong: if_weak_cong option.case_cong_weak prod.case_cong_weak sum.case_cong_weak)

lemma path_spans: "spans 4 [Edge 0 1 W, Edge 1 2 1, Edge 2 3 1]"
proof (rule spans_by_0)
  fix a :: nat assume "a < 4"
  then have "a = 0 \<or> a = 1 \<or> a = 2 \<or> a = 3" by arith
  moreover have 1: "linked [Edge 0 1 W, Edge 1 2 1, Edge 2 3 1] 1 0"
    by (rule linked_joins [of "Edge 0 1 W"]) (simp_all add: joins_def)
  moreover have "linked [Edge 0 1 W, Edge 1 2 1, Edge 2 3 1] 2 1"
    by (rule linked_joins [of "Edge 1 2 1"]) (simp_all add: joins_def)
  then have 2: "linked [Edge 0 1 W, Edge 1 2 1, Edge 2 3 1] 2 0" using 1 by (rule linked_trans)
  moreover have "linked [Edge 0 1 W, Edge 1 2 1, Edge 2 3 1] 3 2"
    by (rule linked_joins [of "Edge 2 3 1"]) (simp_all add: joins_def)
  then have "linked [Edge 0 1 W, Edge 1 2 1, Edge 2 3 1] 3 0" using 2 by (rule linked_trans)
  ultimately show "linked [Edge 0 1 W, Edge 1 2 1, Edge 2 3 1] a 0" by auto
qed

lemma round_double_above:
  "round_double 9007199254740993 = Finite 9007199254740992"
  "round_double 9007199254740994 = Finite 9007199254740994"
  by (simp_all add: round_double_def Let_def bit_length.simps)

theorem kruskal_prim_same_total_counterexample:
  "(0::nat) < 4 \<and> valid_edges 4 [Edge 0 1 9007199254740992, Edge 1 2 1, Edge 2 3 1] \<and>
   spans 4 [Edge 0 1 9007199254740992, Edge 1 2 1, Edge 2 3 1] \<and>
   kruskalMST 4 [Edge 0 1 9007199254740992, Edge 1 2 1, Edge 2 3 1] =
     Some (Inr \<lparr>mst = [Edge 1 2 1, Edge 2 3 1, Edge 0 1 9007199254740992],
                total = Finite 9007199254740994\<rparr>) \<and>
   prim_of_edges 4 [Edge 0 1 9007199254740992, Edge 1 2 1, Edge 2 3 1] 0 =
     Inr \<lparr>mst = [Edge 0 1 9007199254740992, Edge 1 2 1, Edge 2 3 1],
          total = Finite 9007199254740992\<rparr> \<and>
   prim_of_edges 4 [Edge 0 1 9007199254740992, Edge 1 2 1, Edge 2 3 1] 3 =
     Inr \<lparr>mst = [Edge 3 2 1, Edge 2 1 1, Edge 1 0 9007199254740992],
          total = Finite 9007199254740994\<rparr>"
proof -
  have W: "(1::nat) < 9007199254740992" by simp
  have e: "round_double 9007199254740992 = Finite 9007199254740992"
    by (rule round_double_exact) simp
  have "valid_edges 4 [Edge 0 1 9007199254740992, Edge 1 2 1, Edge 2 3 1]"
    by (simp add: valid_edges_def)
  then show ?thesis
    using path_spans [of 9007199254740992] path_kruskal [OF W] path_prim_0 [OF W]
      path_prim_3 [OF W]
    by (simp add: e round_double_above)
qed



section \<open>One vertex\<close>

lemma kruskal_loop_single:
  "parent ds = \<lparr>cells = [Num 0], undefined_prop = Undefined\<rparr> \<Longrightarrow>
   \<forall>e\<in>set es. eu e = 0 \<and> ev e = 0 \<Longrightarrow>
     kruskal_loop 1 es ds [] (Finite 0) = Some ([], Finite 0)"
proof (induction es arbitrary: ds)
  case Nil
  show ?case by simp
next
  case (Cons e es)
  define p where "p = \<lparr>cells = [Num 0], undefined_prop = Undefined\<rparr>"
  have f: "find_ds p (Num 0) = Some (p, Num 0)" by (subst find_ds.simps) (simp add: p_def)
  have "union_ds ds (Num 0) (Num 0) = Some (ds\<lparr>parent := p\<rparr>, False)"
    using Cons.prems(1) by (simp add: union_ds_def f p_def [symmetric])
  moreover have "kruskal_loop 1 es (ds\<lparr>parent := p\<rparr>) [] (Finite 0) = Some ([], Finite 0)"
    using Cons.prems(2) by (intro Cons.IH) (simp_all add: p_def)
  ultimately show ?case using Cons.prems(2) by simp
qed

text \<open>
  Claim C10, as amended. For \<open>n = 1\<close> both algorithms return the empty edge sequence
  and the total 0: \<^verbatim>\<open>kruskalMST\<close> for every edge list whose end points are vertex
  ids (for \<open>n = 1\<close> these are self-loops at vertex 0, which \<^verbatim>\<open>union\<close> rejects; the
  empty list is one of them), \<^verbatim>\<open>primMST\<close> for every adjacency array that has a list
  for the vertex 0 (its loop does not run). (As the claim is written, for every edge list
  and every adjacency input, it does not hold: the functions do not check their
  arguments.)
\<close>

theorem single_vertex:
  assumes "\<forall>e\<in>set edges. eu e < 1 \<and> ev e < 1" "adj \<noteq> []"
  shows "kruskalMST 1 edges = Some (Inr \<lparr>mst = [], total = Finite 0\<rparr>) \<and>
         primMST 1 adj 0 = Inr \<lparr>mst = [], total = Finite 0\<rparr>"
proof
  have "kruskal_loop 1 (sort_key ew edges) (DisjointSet 1) [] (Finite 0) = Some ([], Finite 0)"
    using assms(1) by (intro kruskal_loop_single) (simp_all add: DisjointSet_def)
  then show "kruskalMST 1 edges = Some (Inr \<lparr>mst = [], total = Finite 0\<rparr>)"
    by (simp add: kruskalMST_def)
next
  have "prim_loop 1 adj {0} (push_all 0 (adj ! 0) []) [] (Finite 0) = Inr ([], Finite 0)"
    by (subst prim_loop.simps) simp
  then show "primMST 1 adj 0 = Inr \<lparr>mst = [], total = Finite 0\<rparr>"
    using assms(2) by (simp add: primMST_def)
qed

theorem single_vertex_witness:
  "eu (Edge 0 0 5) < 1 \<and> ev (Edge 0 0 5) < 1 \<and> eu (Edge 0 0 3) < 1 \<and> ev (Edge 0 0 3) < 1 \<and>
   [[Arc 0 5, Arc 7 3]] \<noteq> [] \<and>
   kruskalMST 1 [Edge 0 0 5, Edge 0 0 3] = Some (Inr \<lparr>mst = [], total = Finite 0\<rparr>) \<and>
   primMST 1 [[Arc 0 5, Arc 7 3]] 0 = Inr \<lparr>mst = [], total = Finite 0\<rparr> \<and>
   kruskalMST 1 [] = Some (Inr \<lparr>mst = [], total = Finite 0\<rparr>) \<and>
   primMST 1 [[]] 0 = Inr \<lparr>mst = [], total = Finite 0\<rparr>"
  using single_vertex [of "[Edge 0 0 5, Edge 0 0 3]" "[[Arc 0 5, Arc 7 3]]"]
    single_vertex [of "[]" "[[]]"] by simp

text \<open>
  The claim as it is written fails for an edge list with an end point that is no vertex,
  and for an adjacency array without a list for the vertex 0. For the edge from 0 to 1
  in the graph with the one vertex 0, \<^verbatim>\<open>find(1)\<close> reads \<^verbatim>\<open>parent[1]\<close>, which is
  \<^verbatim>\<open>undefined\<close>, and returns \<^verbatim>\<open>undefined\<close>; \<^verbatim>\<open>union\<close> merges, the edge is
  selected, and since one edge is not \<open>n - 1 = 0\<close> edges \<^verbatim>\<open>kruskalMST\<close> throws the
  "not connected" error. For the empty adjacency array \<^verbatim>\<open>adj[0]\<close> is \<^verbatim>\<open>undefined\<close>,
  and iterating over it in \<^verbatim>\<open>primMST\<close> is a TypeError.
\<close>

theorem single_vertex_counterexample:
  "kruskalMST 1 [Edge 0 1 5] = Some (Inl NotConnected) \<and> primMST 1 [] 0 = Inl TypeError"
  by code_simp

section \<open>The algorithms on a store\<close>

text \<open>
  To say that a call leaves its arguments alone, the arrays and objects the two functions
  work on are put into a store. A reference is an index into the store, \<open>alloc\<close>
  appends a new cell. The cells are: an array of edge objects (the argument
  \<^verbatim>\<open>edges\<close>, the copy \<^verbatim>\<open>sorted\<close>, \<^verbatim>\<open>mst\<close>, the heap's \<^verbatim>\<open>data\<close>), a
  DisjointSet object, an adjacency array (the argument \<^verbatim>\<open>adj\<close>), and the array
  \<^verbatim>\<open>visited\<close>. The functions below are \<^verbatim>\<open>kruskalMST\<close> and \<^verbatim>\<open>primMST\<close> once
  more, statement by statement: every \<^verbatim>\<open>new\<close>, array literal and spread allocates
  a cell, every method call and assignment that changes an object rewrites that object's
  cell (the methods themselves are the functions of the first part, applied to the cell's
  content). The loop of \<^verbatim>\<open>kruskalMST\<close> reads the array \<^verbatim>\<open>sorted\<close> once, as
  nothing writes to it while the loop runs.
\<close>

datatype cell = EdgeArr "edge list" | UnionFind disjoint_set | AdjLists "arc list list" | Marks "nat set"

type_synonym store = "cell list"

definition alloc :: "cell \<Rightarrow> store \<Rightarrow> nat \<times> store" where
  "alloc c \<sigma> = (length \<sigma>, \<sigma> @ [c])"

fun kruskal_loop_st ::
  "nat \<Rightarrow> edge list \<Rightarrow> nat \<Rightarrow> nat \<Rightarrow> number \<Rightarrow> store \<Rightarrow> ((error + number) \<times> store) option" where
  "kruskal_loop_st n [] dref mref t \<sigma> = Some (Inr t, \<sigma>)"
| "kruskal_loop_st n (e # es) dref mref t \<sigma> =
     (case \<sigma> ! dref of
        UnionFind d \<Rightarrow>
          (case union_ds d (Num (eu e)) (Num (ev e)) of
             None \<Rightarrow> None
           | Some (d', merged) \<Rightarrow>
               (let \<sigma>1 = \<sigma>[dref := UnionFind d'] in
                if merged then
                  (case \<sigma>1 ! mref of
                     EdgeArr m \<Rightarrow>
                       (let \<sigma>2 = \<sigma>1[mref := EdgeArr (m @ [Edge (eu e) (ev e) (ew e)])] in
                        if int (length (m @ [Edge (eu e) (ev e) (ew e)])) = int n - 1
                        then Some (Inr (js_add t (ew e)), \<sigma>2)
                        else kruskal_loop_st n es dref mref (js_add t (ew e)) \<sigma>2)
                   | _ \<Rightarrow> Some (Inl TypeError, \<sigma>1))
                else kruskal_loop_st n es dref mref t \<sigma>1))
      | _ \<Rightarrow> Some (Inl TypeError, \<sigma>))"

definition kruskalMST_st :: "nat \<Rightarrow> nat \<Rightarrow> store \<Rightarrow> ((error + mst_result) \<times> store) option" where
  "kruskalMST_st n edges \<sigma> =
     (if edges < length \<sigma> then
        (case \<sigma> ! edges of
           EdgeArr es \<Rightarrow>
             (let (dref, \<sigma>1) = alloc (UnionFind (DisjointSet n)) \<sigma>;
                  (sref, \<sigma>2) = alloc (EdgeArr es) \<sigma>1;
                  \<sigma>3 = \<sigma>2[sref := EdgeArr (sort_key ew es)];
                  (mref, \<sigma>4) = alloc (EdgeArr []) \<sigma>3
              in case \<sigma>4 ! sref of
                   EdgeArr ss \<Rightarrow>
                     (case kruskal_loop_st n ss dref mref (Finite 0) \<sigma>4 of
                        None \<Rightarrow> None
                      | Some (Inl err, \<sigma>5) \<Rightarrow> Some (Inl err, \<sigma>5)
                      | Some (Inr t, \<sigma>5) \<Rightarrow>
                          (case \<sigma>5 ! mref of
                             EdgeArr m \<Rightarrow>
                               if int (length m) \<noteq> int n - 1 then Some (Inl NotConnected, \<sigma>5)
                               else Some (Inr \<lparr>mst = m, total = t\<rparr>, \<sigma>5)
                           | _ \<Rightarrow> Some (Inl TypeError, \<sigma>5)))
                 | _ \<Rightarrow> Some (Inl TypeError, \<sigma>4))
         | _ \<Rightarrow> Some (Inl TypeError, \<sigma>))
      else Some (Inl TypeError, \<sigma>))"

text \<open>
  \<open>frame \<sigma> \<sigma>'\<close>: every cell of \<open>\<sigma>\<close> is still there in \<open>\<sigma>'\<close> with the same
  content (\<open>\<sigma>'\<close> may have new cells).
\<close>

definition frame :: "store \<Rightarrow> store \<Rightarrow> bool" where
  "frame \<sigma> \<sigma>' \<longleftrightarrow> length \<sigma> \<le> length \<sigma>' \<and> take (length \<sigma>) \<sigma>' = \<sigma>"

lemma kruskal_loop_st_refines:
  assumes "dref < length \<sigma>" "mref < length \<sigma>" "dref \<noteq> mref"
    "\<sigma> ! dref = UnionFind d" "\<sigma> ! mref = EdgeArr m"
  shows "(kruskal_loop n es d m t = None \<longrightarrow> kruskal_loop_st n es dref mref t \<sigma> = None) \<and>
         (\<forall>m' t'. kruskal_loop n es d m t = Some (m', t') \<longrightarrow>
            (\<exists>\<sigma>'. kruskal_loop_st n es dref mref t \<sigma> = Some (Inr t', \<sigma>') \<and>
                  length \<sigma>' = length \<sigma> \<and> \<sigma>' ! mref = EdgeArr m' \<and>
                  (\<forall>i<length \<sigma>. i \<noteq> dref \<and> i \<noteq> mref \<longrightarrow> \<sigma>' ! i = \<sigma> ! i)))"
  using assms
proof (induction es arbitrary: \<sigma> d m t)
  case Nil
  then show ?case by simp
next
  case (Cons e es)
  show ?case
  proof (cases "union_ds d (Num (eu e)) (Num (ev e))")
    case None
    with Cons.prems show ?thesis by simp
  next
    case (Some r)
    obtain d' merged where r: "r = (d', merged)" by (cases r)
    define \<sigma>1 where "\<sigma>1 = \<sigma>[dref := UnionFind d']"
    have s1: "dref < length \<sigma>1" "mref < length \<sigma>1" "\<sigma>1 ! dref = UnionFind d'" "\<sigma>1 ! mref = EdgeArr m"
      "length \<sigma>1 = length \<sigma>" "\<And>i. i \<noteq> dref \<Longrightarrow> \<sigma>1 ! i = \<sigma> ! i"
      using Cons.prems by (simp_all add: \<sigma>1_def)
    show ?thesis
    proof (cases merged)
      case False
      from Cons.IH [OF s1(1,2) Cons.prems(3) s1(3,4), of t] Some r False Cons.prems(4) s1(5,6)
      show ?thesis by (simp add: \<sigma>1_def [symmetric])
    next
      case True
      define \<sigma>2 where "\<sigma>2 = \<sigma>1[mref := EdgeArr (m @ [e])]"
      have s2: "dref < length \<sigma>2" "mref < length \<sigma>2" "\<sigma>2 ! dref = UnionFind d'"
        "\<sigma>2 ! mref = EdgeArr (m @ [e])" "length \<sigma>2 = length \<sigma>"
        "\<And>i. i \<noteq> dref \<Longrightarrow> i \<noteq> mref \<Longrightarrow> \<sigma>2 ! i = \<sigma> ! i"
        using s1 Cons.prems(3) by (simp_all add: \<sigma>2_def)
      show ?thesis
      proof (cases "int (length (m @ [e])) = int n - 1")
        case stop: True
        with Some r True Cons.prems(4) s1(4) s2 show ?thesis
          by (simp add: \<sigma>1_def [symmetric] \<sigma>2_def [symmetric])
      next
        case go: False
        from Cons.IH [OF s2(1,2) Cons.prems(3) s2(3,4), of "js_add t (ew e)"]
          Some r True go Cons.prems(4) s1(4) s2(5,6)
        show ?thesis by (simp add: \<sigma>1_def [symmetric] \<sigma>2_def [symmetric])
      qed
    qed
  qed
qed


lemma frame_refl: "frame \<sigma> \<sigma>"
  by (simp add: frame_def)

lemma frame_nth: "frame \<sigma> \<sigma>' \<Longrightarrow> i < length \<sigma> \<Longrightarrow> \<sigma>' ! i = \<sigma> ! i"
  unfolding frame_def by (metis nth_take)

lemma frameI:
  assumes "length \<sigma> \<le> length \<sigma>'" "\<And>i. i < length \<sigma> \<Longrightarrow> \<sigma>' ! i = \<sigma> ! i"
  shows "frame \<sigma> \<sigma>'"
  unfolding frame_def using assms by (simp add: list_eq_iff_nth_eq)

lemma kruskalMST_st_refines:
  assumes "edges < length \<sigma>" "\<sigma> ! edges = EdgeArr es"
  shows "(kruskalMST n es = None \<longrightarrow> kruskalMST_st n edges \<sigma> = None) \<and>
         (\<forall>res. kruskalMST n es = Some res \<longrightarrow>
            (\<exists>\<sigma>'. kruskalMST_st n edges \<sigma> = Some (res, \<sigma>') \<and> frame \<sigma> \<sigma>'))"
proof -
  define dref where "dref = length \<sigma>"
  define sref where "sref = Suc (length \<sigma>)"
  define mref where "mref = Suc (Suc (length \<sigma>))"
  define \<sigma>4 where
    "\<sigma>4 = \<sigma> @ [UnionFind (DisjointSet n), EdgeArr (sort_key ew es), EdgeArr []]"
  have un: "kruskalMST_st n edges \<sigma> =
     (case kruskal_loop_st n (sort_key ew es) dref mref (Finite 0) \<sigma>4 of
        None \<Rightarrow> None
      | Some (Inl err, \<sigma>5) \<Rightarrow> Some (Inl err, \<sigma>5)
      | Some (Inr t, \<sigma>5) \<Rightarrow>
          (case \<sigma>5 ! mref of
             EdgeArr m \<Rightarrow>
               if int (length m) \<noteq> int n - 1 then Some (Inl NotConnected, \<sigma>5)
               else Some (Inr \<lparr>mst = m, total = t\<rparr>, \<sigma>5)
           | _ \<Rightarrow> Some (Inl TypeError, \<sigma>5)))"
    using assms
    by (simp add: kruskalMST_st_def alloc_def Let_def dref_def sref_def mref_def \<sigma>4_def
        nth_append list_update_append cong: option.case_cong sum.case_cong)
  have pre: "dref < length \<sigma>4" "mref < length \<sigma>4" "dref \<noteq> mref"
    "\<sigma>4 ! dref = UnionFind (DisjointSet n)" "\<sigma>4 ! mref = EdgeArr []"
    by (simp_all add: dref_def mref_def \<sigma>4_def nth_append)
  note ref = kruskal_loop_st_refines [OF pre, of n "sort_key ew es" "Finite 0"]
  show ?thesis
  proof (cases "kruskal_loop n (sort_key ew es) (DisjointSet n) [] (Finite 0)")
    case None
    with ref un show ?thesis by (simp add: kruskalMST_def)
  next
    case (Some r)
    obtain m t where r: "r = (m, t)" by (cases r)
    from ref Some r obtain \<sigma>5 where s5:
      "kruskal_loop_st n (sort_key ew es) dref mref (Finite 0) \<sigma>4 = Some (Inr t, \<sigma>5)"
      "length \<sigma>5 = length \<sigma>4" "\<sigma>5 ! mref = EdgeArr m"
      "\<forall>i<length \<sigma>4. i \<noteq> dref \<and> i \<noteq> mref \<longrightarrow> \<sigma>5 ! i = \<sigma>4 ! i" by blast
    have "frame \<sigma> \<sigma>5"
    proof (rule frameI)
      show "length \<sigma> \<le> length \<sigma>5" using s5(2) by (simp add: \<sigma>4_def)
      fix i assume "i < length \<sigma>"
      then show "\<sigma>5 ! i = \<sigma> ! i" using s5(4) by (simp add: \<sigma>4_def dref_def mref_def nth_append)
    qed
    with Some r s5(1,3) un show ?thesis by (simp add: kruskalMST_def)
  qed
qed

partial_function (option) prim_loop_st ::
  "nat \<Rightarrow> nat \<Rightarrow> nat \<Rightarrow> nat \<Rightarrow> nat \<Rightarrow> number \<Rightarrow> store \<Rightarrow>
     ((error + number) \<times> store) option" where
  "prim_loop_st n adj vref href mref t \<sigma> =
     (case (\<sigma> ! adj, \<sigma> ! vref, \<sigma> ! href, \<sigma> ! mref) of
        (AdjLists a, Marks visited, EdgeArr h, EdgeArr m) \<Rightarrow>
          if length h > 0 \<and> int (length m) < int n - 1 then
            (case pop h of
               (None, h') \<Rightarrow> Some (Inl TypeError, \<sigma>[href := EdgeArr h'])
             | (Some e, h') \<Rightarrow>
                 (let \<sigma>1 = \<sigma>[href := EdgeArr h'] in
                  if ev e \<in> visited then prim_loop_st n adj vref href mref t \<sigma>1
                  else
                    (let \<sigma>2 = \<sigma>1[vref := Marks (insert (ev e) visited)];
                         \<sigma>3 = \<sigma>2[mref := EdgeArr (m @ [Edge (eu e) (ev e) (ew e)])]
                     in if ev e < length a then
                          prim_loop_st n adj vref href mref (js_add t (ew e))
                            (\<sigma>3[href := EdgeArr (push_unvisited (insert (ev e) visited) (ev e) (a ! ev e) h')])
                        else Some (Inl TypeError, \<sigma>3))))
          else Some (Inr t, \<sigma>)
      | _ \<Rightarrow> Some (Inl TypeError, \<sigma>))"

declare prim_loop_st.simps [code]

definition primMST_st :: "nat \<Rightarrow> nat \<Rightarrow> nat \<Rightarrow> store \<Rightarrow> ((error + mst_result) \<times> store) option" where
  "primMST_st n adj start \<sigma> =
     (if adj < length \<sigma> then
        (case \<sigma> ! adj of
           AdjLists a \<Rightarrow>
             (let (vref, \<sigma>1) = alloc (Marks {}) \<sigma>;
                  (href, \<sigma>2) = alloc (EdgeArr []) \<sigma>1;
                  (mref, \<sigma>3) = alloc (EdgeArr []) \<sigma>2;
                  \<sigma>4 = \<sigma>3[vref := Marks {start}]
              in if start < length a then
                   (case prim_loop_st n adj vref href mref (Finite 0)
                           (\<sigma>4[href := EdgeArr (push_all start (a ! start) [])]) of
                      None \<Rightarrow> None
                    | Some (Inl err, \<sigma>5) \<Rightarrow> Some (Inl err, \<sigma>5)
                    | Some (Inr t, \<sigma>5) \<Rightarrow>
                        (case \<sigma>5 ! mref of
                           EdgeArr m \<Rightarrow>
                             if int (length m) \<noteq> int n - 1 then Some (Inl NotConnected, \<sigma>5)
                             else Some (Inr \<lparr>mst = m, total = t\<rparr>, \<sigma>5)
                         | _ \<Rightarrow> Some (Inl TypeError, \<sigma>5)))
                 else Some (Inl TypeError, \<sigma>4))
         | _ \<Rightarrow> Some (Inl TypeError, \<sigma>))
      else Some (Inl TypeError, \<sigma>))"


definition same_but :: "store \<Rightarrow> store \<Rightarrow> nat set \<Rightarrow> bool" where
  "same_but \<sigma> \<sigma>' R \<longleftrightarrow> length \<sigma>' = length \<sigma> \<and> (\<forall>i<length \<sigma>. i \<notin> R \<longrightarrow> \<sigma>' ! i = \<sigma> ! i)"

lemma same_but_refl: "same_but \<sigma> \<sigma> R"
  by (simp add: same_but_def)

lemma same_but_update:
  assumes "r \<in> R" "same_but (\<sigma>[r := c]) \<sigma>' R"
  shows "same_but \<sigma> \<sigma>' R"
  unfolding same_but_def
proof (intro conjI allI impI)
  show "length \<sigma>' = length \<sigma>" using assms(2) by (simp add: same_but_def)
  fix i assume i: "i < length \<sigma>" "i \<notin> R"
  with assms(1) have "i \<noteq> r" by auto
  with assms(2) i show "\<sigma>' ! i = \<sigma> ! i" by (simp add: same_but_def)
qed

lemma same_but_update_right:
  assumes "r \<in> R"
  shows "same_but \<sigma> (\<sigma>[r := c]) R"
  unfolding same_but_def
proof (intro conjI allI impI)
  show "length (\<sigma>[r := c]) = length \<sigma>" by simp
  fix i assume i: "i < length \<sigma>" "i \<notin> R"
  with assms have "i \<noteq> r" by auto
  then show "\<sigma>[r := c] ! i = \<sigma> ! i" by simp
qed

lemma prim_loop_st_refines:
  assumes "adj < length \<sigma>" "vref < length \<sigma>" "href < length \<sigma>" "mref < length \<sigma>"
    and "adj \<notin> {vref, href, mref}" "vref \<noteq> href" "vref \<noteq> mref" "href \<noteq> mref"
    and "\<sigma> ! adj = AdjLists a" "\<sigma> ! vref = Marks vis" "\<sigma> ! href = EdgeArr h" "\<sigma> ! mref = EdgeArr m"
  shows "\<exists>\<sigma>'. same_but \<sigma> \<sigma>' {vref, href, mref} \<and>
           (case prim_loop n a vis h m t of
              Inl err \<Rightarrow> prim_loop_st n adj vref href mref t \<sigma> = Some (Inl err, \<sigma>')
            | Inr (m', t') \<Rightarrow>
                prim_loop_st n adj vref href mref t \<sigma> = Some (Inr t', \<sigma>') \<and> \<sigma>' ! mref = EdgeArr m')"
  using assms
proof (induction n a vis h m t arbitrary: \<sigma> rule: prim_loop.induct)
  case (1 n a vis h m t)
  note refs = "1.prems"(1-8) and cells = "1.prems"(9-12)
  let ?R = "{vref, href, mref}"
  show ?case
  proof (cases "0 < length h \<and> int (length m) < int n - 1")
    case False
    then have "prim_loop n a vis h m t = Inr (m, t)" by (subst prim_loop.simps) auto
    moreover have "prim_loop_st n adj vref href mref t \<sigma> = Some (Inr t, \<sigma>)"
      using False cells by (subst prim_loop_st.simps) auto
    ultimately show ?thesis using cells same_but_refl [of \<sigma> ?R] by auto
  next
    case True
    obtain x h' where p: "pop h = (x, h')" by (cases "pop h")
    define \<sigma>1 where "\<sigma>1 = \<sigma>[href := EdgeArr h']"
    have c1: "\<sigma>1 ! adj = AdjLists a" "\<sigma>1 ! vref = Marks vis" "\<sigma>1 ! href = EdgeArr h'"
      "\<sigma>1 ! mref = EdgeArr m" "length \<sigma>1 = length \<sigma>"
      using refs cells by (auto simp: \<sigma>1_def)
    show ?thesis
    proof (cases x)
      case None
      have "prim_loop n a vis h m t = Inl TypeError"
        using True p None by (subst prim_loop.simps) simp
      moreover have "prim_loop_st n adj vref href mref t \<sigma> = Some (Inl TypeError, \<sigma>1)"
        using True p None cells by (subst prim_loop_st.simps) (simp add: \<sigma>1_def)
      moreover have "same_but \<sigma> \<sigma>1 ?R" unfolding \<sigma>1_def by (rule same_but_update_right) simp
      ultimately show ?thesis by auto
    next
      case (Some e)
      show ?thesis
      proof (cases "ev e \<in> vis")
        case st: True
        have pl: "prim_loop n a vis h m t = prim_loop n a vis h' m t"
          using True p Some st by (subst prim_loop.simps) simp
        have ps: "prim_loop_st n adj vref href mref t \<sigma> = prim_loop_st n adj vref href mref t \<sigma>1"
          using True p Some st cells by (subst prim_loop_st.simps) (simp add: \<sigma>1_def)
        from "1.IH"(1) [OF True p [symmetric] Some st, of \<sigma>1] refs c1
        obtain \<sigma>' where "same_but \<sigma>1 \<sigma>' ?R"
          "case prim_loop n a vis h' m t of
              Inl err \<Rightarrow> prim_loop_st n adj vref href mref t \<sigma>1 = Some (Inl err, \<sigma>')
            | Inr (m', t') \<Rightarrow>
                prim_loop_st n adj vref href mref t \<sigma>1 = Some (Inr t', \<sigma>') \<and> \<sigma>' ! mref = EdgeArr m'"
          by auto
        moreover from this(1) have "same_but \<sigma> \<sigma>' ?R"
          unfolding \<sigma>1_def by (rule same_but_update [rotated]) simp
        ultimately show ?thesis unfolding pl ps by blast
      next
        case nv: False
        define \<sigma>2 where "\<sigma>2 = \<sigma>1[vref := Marks (insert (ev e) vis)]"
        define \<sigma>3 where "\<sigma>3 = \<sigma>2[mref := EdgeArr (m @ [e])]"
        define h'' where "h'' = push_unvisited (insert (ev e) vis) (ev e) (a ! ev e) h'"
        define \<sigma>4 where "\<sigma>4 = \<sigma>3[href := EdgeArr h'']"
        have sb: "same_but \<sigma> \<sigma>3 ?R"
          unfolding \<sigma>3_def \<sigma>2_def \<sigma>1_def using refs
          by (auto simp: same_but_def nth_list_update)
        show ?thesis
        proof (cases "ev e < length a")
          case False
          have "prim_loop n a vis h m t = Inl TypeError"
            using True p Some nv False by (subst prim_loop.simps) simp
          moreover have "prim_loop_st n adj vref href mref t \<sigma> = Some (Inl TypeError, \<sigma>3)"
            using True p Some nv False cells
            by (subst prim_loop_st.simps) (simp add: \<sigma>1_def \<sigma>2_def \<sigma>3_def Let_def)
          ultimately show ?thesis using sb by auto
        next
          case lt: True
          have pl: "prim_loop n a vis h m t =
             prim_loop n a (insert (ev e) vis) h'' (m @ [e]) (js_add t (ew e))"
            using True p Some nv lt by (subst prim_loop.simps) (simp add: h''_def)
          have ps: "prim_loop_st n adj vref href mref t \<sigma> =
             prim_loop_st n adj vref href mref (js_add t (ew e)) \<sigma>4"
            using True p Some nv lt cells
            by (subst prim_loop_st.simps)
               (simp add: \<sigma>1_def \<sigma>2_def \<sigma>3_def \<sigma>4_def h''_def Let_def)
          have c4: "\<sigma>4 ! adj = AdjLists a" "\<sigma>4 ! vref = Marks (insert (ev e) vis)"
            "\<sigma>4 ! href = EdgeArr h''" "\<sigma>4 ! mref = EdgeArr (m @ [e])" "length \<sigma>4 = length \<sigma>"
            using refs c1 by (auto simp: \<sigma>4_def \<sigma>3_def \<sigma>2_def)
          from "1.IH"(2) [OF True p [symmetric] Some nv lt, of \<sigma>4] refs c4
          obtain \<sigma>' where "same_but \<sigma>4 \<sigma>' ?R"
            "case prim_loop n a (insert (ev e) vis) h'' (m @ [e]) (js_add t (ew e)) of
                Inl err \<Rightarrow> prim_loop_st n adj vref href mref (js_add t (ew e)) \<sigma>4 = Some (Inl err, \<sigma>')
              | Inr (m', t') \<Rightarrow>
                  prim_loop_st n adj vref href mref (js_add t (ew e)) \<sigma>4 = Some (Inr t', \<sigma>') \<and>
                  \<sigma>' ! mref = EdgeArr m'"
            by (auto simp: h''_def)
          moreover from this(1) sb have "same_but \<sigma> \<sigma>' ?R"
            unfolding \<sigma>4_def same_but_def by (auto simp: nth_list_update)
          ultimately show ?thesis unfolding pl ps by blast
        qed
      qed
    qed
  qed
qed


lemma primMST_st_refines:
  assumes "adj < length \<sigma>" "\<sigma> ! adj = AdjLists a"
  shows "\<exists>\<sigma>'. primMST_st n adj start \<sigma> = Some (primMST n a start, \<sigma>') \<and> frame \<sigma> \<sigma>'"
proof (cases "start < length a")
  case False
  define \<sigma>4 where "\<sigma>4 = \<sigma> @ [Marks {start}, EdgeArr [], EdgeArr []]"
  have "primMST_st n adj start \<sigma> = Some (Inl TypeError, \<sigma>4)"
    using assms False
    by (simp add: primMST_st_def alloc_def Let_def \<sigma>4_def list_update_append)
  moreover have "primMST n a start = Inl TypeError" using False by (simp add: primMST_def)
  moreover have "frame \<sigma> \<sigma>4" by (simp add: frame_def \<sigma>4_def)
  ultimately show ?thesis by simp
next
  case True
  define vref where "vref = length \<sigma>"
  define href where "href = Suc (length \<sigma>)"
  define mref where "mref = Suc (Suc (length \<sigma>))"
  define h0 where "h0 = push_all start (a ! start) []"
  define \<sigma>5 where "\<sigma>5 = \<sigma> @ [Marks {start}, EdgeArr h0, EdgeArr []]"
  have un: "primMST_st n adj start \<sigma> =
     (case prim_loop_st n adj vref href mref (Finite 0) \<sigma>5 of
        None \<Rightarrow> None
      | Some (Inl err, \<sigma>6) \<Rightarrow> Some (Inl err, \<sigma>6)
      | Some (Inr t, \<sigma>6) \<Rightarrow>
          (case \<sigma>6 ! mref of
             EdgeArr m \<Rightarrow>
               if int (length m) \<noteq> int n - 1 then Some (Inl NotConnected, \<sigma>6)
               else Some (Inr \<lparr>mst = m, total = t\<rparr>, \<sigma>6)
           | _ \<Rightarrow> Some (Inl TypeError, \<sigma>6)))"
    using assms True
    by (simp add: primMST_st_def alloc_def Let_def vref_def href_def mref_def \<sigma>5_def h0_def
        nth_append list_update_append cong: option.case_cong sum.case_cong)
  have pre: "adj < length \<sigma>5" "vref < length \<sigma>5" "href < length \<sigma>5" "mref < length \<sigma>5"
    "adj \<notin> {vref, href, mref}" "vref \<noteq> href" "vref \<noteq> mref" "href \<noteq> mref"
    "\<sigma>5 ! adj = AdjLists a" "\<sigma>5 ! vref = Marks {start}" "\<sigma>5 ! href = EdgeArr h0"
    "\<sigma>5 ! mref = EdgeArr []"
    using assms by (simp_all add: vref_def href_def mref_def \<sigma>5_def nth_append)
  from prim_loop_st_refines [OF pre, of n "Finite 0"] obtain \<sigma>6 where
    sb: "same_but \<sigma>5 \<sigma>6 {vref, href, mref}"
    and r: "case prim_loop n a {start} h0 [] (Finite 0) of
              Inl err \<Rightarrow> prim_loop_st n adj vref href mref (Finite 0) \<sigma>5 = Some (Inl err, \<sigma>6)
            | Inr (m', t') \<Rightarrow>
                prim_loop_st n adj vref href mref (Finite 0) \<sigma>5 = Some (Inr t', \<sigma>6) \<and> \<sigma>6 ! mref = EdgeArr m'"
    by blast
  have fr: "frame \<sigma> \<sigma>6"
  proof (rule frameI)
    show "length \<sigma> \<le> length \<sigma>6" using sb by (simp add: same_but_def \<sigma>5_def)
    fix i assume i: "i < length \<sigma>"
    then have "i \<notin> {vref, href, mref}" by (simp add: vref_def href_def mref_def)
    with sb i have "\<sigma>6 ! i = \<sigma>5 ! i" by (simp add: same_but_def \<sigma>5_def)
    with i show "\<sigma>6 ! i = \<sigma> ! i" by (simp add: \<sigma>5_def nth_append)
  qed
  show ?thesis
  proof (cases "prim_loop n a {start} h0 [] (Finite 0)")
    case (Inl err)
    with r un True fr show ?thesis by (simp add: primMST_def h0_def)
  next
    case (Inr q)
    obtain m t where q: "q = (m, t)" by (cases q)
    with r un True fr Inr show ?thesis by (simp add: primMST_def h0_def)
  qed
qed

text \<open>
  Claim C8. Neither function changes its arguments. Whenever \<^verbatim>\<open>kruskalMST\<close>
  returns or throws, every object that existed before the call, the array
  \<^verbatim>\<open>edges\<close> among them, is unchanged (the sort works on a new array), and the answer
  is the one of the function of the first part; it returns whenever that one does.
  \<^verbatim>\<open>primMST\<close> always returns or throws, with the answer of the function of the first
  part, and every object that existed before the call, the adjacency array among them,
  is unchanged.
\<close>

theorem inputs_unchanged:
  assumes "edges < length \<sigma>" "\<sigma> ! edges = EdgeArr es" "adj < length \<sigma>" "\<sigma> ! adj = AdjLists a"
  shows "(\<forall>res \<sigma>'. kruskalMST_st n edges \<sigma> = Some (res, \<sigma>') \<longrightarrow>
            frame \<sigma> \<sigma>' \<and> \<sigma>' ! edges = EdgeArr es \<and> kruskalMST n es = Some res) \<and>
         (\<forall>res. kruskalMST n es = Some res \<longrightarrow> (\<exists>\<sigma>'. kruskalMST_st n edges \<sigma> = Some (res, \<sigma>'))) \<and>
         (\<exists>\<sigma>'. primMST_st n adj start \<sigma> = Some (primMST n a start, \<sigma>') \<and>
               frame \<sigma> \<sigma>' \<and> \<sigma>' ! adj = AdjLists a)"
proof (intro conjI allI impI)
  fix res \<sigma>' assume st: "kruskalMST_st n edges \<sigma> = Some (res, \<sigma>')"
  note ref = kruskalMST_st_refines [OF assms(1,2), of n]
  from ref st obtain res0 where res0: "kruskalMST n es = Some res0" by (cases "kruskalMST n es") auto
  with ref obtain \<sigma>0 where "kruskalMST_st n edges \<sigma> = Some (res0, \<sigma>0)" "frame \<sigma> \<sigma>0" by blast
  with st res0 show "frame \<sigma> \<sigma>'" "kruskalMST n es = Some res" by simp_all
  then show "\<sigma>' ! edges = EdgeArr es" using frame_nth [of \<sigma> \<sigma>' edges] assms(1,2) by simp
next
  fix res assume "kruskalMST n es = Some res"
  with kruskalMST_st_refines [OF assms(1,2), of n]
  show "\<exists>\<sigma>'. kruskalMST_st n edges \<sigma> = Some (res, \<sigma>')" by blast
next
  from primMST_st_refines [OF assms(3,4), of n start] obtain \<sigma>' where
    "primMST_st n adj start \<sigma> = Some (primMST n a start, \<sigma>')" "frame \<sigma> \<sigma>'" by blast
  moreover from this(2) have "\<sigma>' ! adj = AdjLists a" using frame_nth [of \<sigma> \<sigma>' adj] assms(3,4) by simp
  ultimately show "\<exists>\<sigma>'. primMST_st n adj start \<sigma> = Some (primMST n a start, \<sigma>') \<and>
               frame \<sigma> \<sigma>' \<and> \<sigma>' ! adj = AdjLists a" by blast
qed


text \<open>A store with an unsorted edge list for three vertices and its adjacency array.\<close>

definition example_store :: store where
  "example_store = [EdgeArr [Edge 0 1 5, Edge 1 2 3], AdjLists [[Arc 1 5], [Arc 0 5, Arc 2 3], [Arc 1 3]]]"

theorem inputs_unchanged_witness:
  "0 < length example_store \<and> example_store ! 0 = EdgeArr [Edge 0 1 5, Edge 1 2 3] \<and>
   1 < length example_store \<and>
   example_store ! 1 = AdjLists [[Arc 1 5], [Arc 0 5, Arc 2 3], [Arc 1 3]] \<and>
   kruskalMST_st 3 0 example_store =
     Some (Inr \<lparr>mst = [Edge 1 2 3, Edge 0 1 5], total = Finite 8\<rparr>,
           example_store @
           [UnionFind \<lparr>parent = \<lparr>cells = [Num 1, Num 1, Num 1], undefined_prop = Undefined\<rparr>,
                      rank = \<lparr>cells = [Num 0, Num 1, Num 0], undefined_prop = Undefined\<rparr>\<rparr>,
            EdgeArr [Edge 1 2 3, Edge 0 1 5], EdgeArr [Edge 1 2 3, Edge 0 1 5]]) \<and>
   frame example_store
     (example_store @
      [UnionFind \<lparr>parent = \<lparr>cells = [Num 1, Num 1, Num 1], undefined_prop = Undefined\<rparr>,
                      rank = \<lparr>cells = [Num 0, Num 1, Num 0], undefined_prop = Undefined\<rparr>\<rparr>,
       EdgeArr [Edge 1 2 3, Edge 0 1 5], EdgeArr [Edge 1 2 3, Edge 0 1 5]]) \<and>
   kruskalMST 3 [Edge 0 1 5, Edge 1 2 3] =
     Some (Inr \<lparr>mst = [Edge 1 2 3, Edge 0 1 5], total = Finite 8\<rparr>) \<and>
   (\<exists>\<sigma>'. primMST_st 3 1 0 example_store =
           Some (primMST 3 [[Arc 1 5], [Arc 0 5, Arc 2 3], [Arc 1 3]] 0, \<sigma>') \<and>
         frame example_store \<sigma>' \<and>
         \<sigma>' ! 1 = AdjLists [[Arc 1 5], [Arc 0 5, Arc 2 3], [Arc 1 3]])"
proof -
  have s: "0 < length example_store" "example_store ! 0 = EdgeArr [Edge 0 1 5, Edge 1 2 3]"
    "1 < length example_store"
    "example_store ! 1 = AdjLists [[Arc 1 5], [Arc 0 5, Arc 2 3], [Arc 1 3]]"
    by (simp_all add: example_store_def)
  have k: "kruskalMST_st 3 0 example_store =
     Some (Inr \<lparr>mst = [Edge 1 2 3, Edge 0 1 5], total = Finite 8\<rparr>,
           example_store @
           [UnionFind \<lparr>parent = \<lparr>cells = [Num 1, Num 1, Num 1], undefined_prop = Undefined\<rparr>,
                      rank = \<lparr>cells = [Num 0, Num 1, Num 0], undefined_prop = Undefined\<rparr>\<rparr>,
            EdgeArr [Edge 1 2 3, Edge 0 1 5], EdgeArr [Edge 1 2 3, Edge 0 1 5]])"
    unfolding example_store_def by code_simp
  note t = inputs_unchanged [OF s, of 3 0]
  from t [THEN conjunct1, rule_format, OF k] t [THEN conjunct2, THEN conjunct2] s k
  show ?thesis by simp
qed


end

